theory Spec2Isabelle
  imports Main "HOL-Library.Char_ord" "HOL-Library.List_Lexorder" "HOL-Library.AList"
begin

section \<open>Strings\<close>

text \<open>
  A Python \<open>str\<close> is modelled as a \<open>string\<close> whose characters are read as the code
  points U+0000 .. U+00FF. The character classes and case mappings below are the ones
  Python applies to these code points; \<open><\<close> on strings is the lexicographic order
  by code point, as Python's string comparison is.
\<close>

definition code :: "char \<Rightarrow> nat" where
  "code c = of_char c"

definition is_space :: "char \<Rightarrow> bool" where
  \<comment> \<open>the class \<open>\s\<close> of \<open>re\<close> on \<open>str\<close>: tab .. carriage return, FS .. US, space, NEL, NBSP\<close>
  "is_space c = ((9 \<le> code c \<and> code c \<le> 13) \<or> (28 \<le> code c \<and> code c \<le> 32)
                  \<or> code c = 133 \<or> code c = 160)"

definition is_digit :: "char \<Rightarrow> bool" where
  \<comment> \<open>the classes \<open>[0-9]\<close> and \<open>\d\<close>: the only decimal digits below U+0100\<close>
  "is_digit c = (48 \<le> code c \<and> code c \<le> 57)"

definition lower_char :: "char \<Rightarrow> char" where
  "lower_char c =
     (if (65 \<le> code c \<and> code c \<le> 90) \<or> (192 \<le> code c \<and> code c \<le> 222 \<and> code c \<noteq> 215)
      then char_of (code c + 32) else c)"

definition upper_char :: "char \<Rightarrow> char" where
  \<comment> \<open>\<open>str.upper\<close> on the characters whose upper case lies below U+0100\<close>
  "upper_char c =
     (if (97 \<le> code c \<and> code c \<le> 122) \<or> (224 \<le> code c \<and> code c \<le> 254 \<and> code c \<noteq> 247)
      then char_of (code c - 32) else c)"

definition lower :: "string \<Rightarrow> string" where
  "lower s = map lower_char s"

definition upper :: "string \<Rightarrow> string" where
  "upper s = map upper_char s"

definition endswith :: "string \<Rightarrow> string \<Rightarrow> bool" where
  "endswith s e = (length e \<le> length s \<and> drop (length s - length e) s = e)"

definition replace_char :: "char \<Rightarrow> char \<Rightarrow> string \<Rightarrow> string" where
  \<comment> \<open>\<open>str.replace\<close> for one-character arguments\<close>
  "replace_char a b s = map (\<lambda>c. if c = a then b else c) s"

section \<open>derivation.py\<close>

datatype error = SkipDrv | KeyError | ValueError | DecodeError | HTTPError | ConnectionError

subsection \<open>\<open>R_VERSION\<close> and \<open>split_name\<close>\<close>

text \<open>
  \<open>R_VERSION = ^(\S+?)-([0-9]\S*)$\<close>. The tail after the dash must start with a digit
  and run without white space to the end of the string; \<open>$\<close> also matches just before a
  final newline, which then is not part of the second group.
\<close>

definition version_tail :: "string \<Rightarrow> string option" where
  "version_tail cs =
     (case cs of
        [] \<Rightarrow> None
      | d # r \<Rightarrow>
          if is_digit d \<and> (dropWhile (\<lambda>c. \<not> is_space c) r = [] \<or>
                            dropWhile (\<lambda>c. \<not> is_space c) r = [CHR 0x0A])
          then Some (d # takeWhile (\<lambda>c. \<not> is_space c) r) else None)"

text \<open>
  The first group is lazy: the matcher tries the shortest non-empty prefix first and
  extends it by one non-space character whenever the rest fails. \<open>acc\<close> is the prefix
  consumed so far.
\<close>

fun R_VERSION_scan :: "string \<Rightarrow> string \<Rightarrow> (string \<times> string) option" where
  "R_VERSION_scan acc [] = None"
| "R_VERSION_scan acc (c # cs) =
     (if acc \<noteq> [] \<and> c = CHR ''-'' \<and> version_tail cs \<noteq> None
      then Some (acc, the (version_tail cs))
      else if is_space c then None
      else R_VERSION_scan (acc @ [c]) cs)"

definition R_VERSION_match :: "string \<Rightarrow> (string \<times> string) option" where
  "R_VERSION_match s = R_VERSION_scan [] s"

definition split_name :: "string \<Rightarrow> string \<times> string option" where
  "split_name fullname =
     (let fullname = lower fullname;
          fullname = (if endswith fullname ''.drv''
                      then take (length fullname - 4) fullname else fullname)
      in case R_VERSION_match fullname of
           Some (p, v) \<Rightarrow> (p, Some v)
         | None \<Rightarrow> (fullname, None))"

subsection \<open>\<open>Derive\<close>\<close>

record Derive =
  name :: string
  pname :: string
  version :: string
  patches :: string

definition dict :: "(string \<times> string) list \<Rightarrow> string \<Rightarrow> string option" where
  \<comment> \<open>\<open>dict(pairs)\<close>: a later pair overrides an earlier one with the same key\<close>
  "dict kvs = map_of (rev kvs)"

definition truthy :: "string option \<Rightarrow> bool" where
  \<comment> \<open>\<open>None\<close> and the empty string are the false values\<close>
  "truthy x = (case x of None \<Rightarrow> False | Some s \<Rightarrow> s \<noteq> [])"

definition skip_extensions :: "string list" where
  "skip_extensions = [''.tar.gz'', ''.tar.bz2'', ''.tar.xz'', ''.zip'', ''.patch'', ''.diff'']"

text \<open>
  \<open>json.loads\<close> is a library function; \<open>json_loads\<close> stands for it, restricted to the
  string-valued attributes of the decoded object (\<open>None\<close>: the text is not JSON).
\<close>

definition destructure ::
  "(string \<Rightarrow> (string \<Rightarrow> string option) option) \<Rightarrow> (string \<Rightarrow> string option)
     \<Rightarrow> error + (string \<Rightarrow> string option)" where
  "destructure json_loads env =
     (case env ''__json'' of
        None \<Rightarrow> Inl KeyError
      | Some j \<Rightarrow> (case json_loads j of None \<Rightarrow> Inl ValueError | Some obj \<Rightarrow> Inr obj))"

definition Derive_name ::
  "(string \<Rightarrow> (string \<Rightarrow> string option) option) \<Rightarrow> string option
     \<Rightarrow> (string \<times> string) list \<Rightarrow> error + string" where
  \<comment> \<open>the first lines of \<open>__init__\<close>, up to the point where \<open>self.name\<close> is settled\<close>
  "Derive_name json_loads name_arg envVars =
     (let env = dict envVars;
          n = (if truthy name_arg then name_arg else env ''name'')
      in if truthy n then Inr (the n)
         else (case destructure json_loads env of
                 Inl e \<Rightarrow> Inl e
               | Inr obj \<Rightarrow> (case obj ''name'' of None \<Rightarrow> Inl KeyError | Some s \<Rightarrow> Inr s)))"

definition Derive_init ::
  "(string \<Rightarrow> (string \<Rightarrow> string option) option) \<Rightarrow> string option
     \<Rightarrow> (string \<times> string) list \<Rightarrow> string option \<Rightarrow> error + Derive" where
  "Derive_init json_loads name_arg envVars patches_arg =
     (case Derive_name json_loads name_arg envVars of
        Inl e \<Rightarrow> Inl e
      | Inr n \<Rightarrow>
          if list_ex (endswith n) skip_extensions then Inl SkipDrv
          else (case split_name n of
                  (p, None) \<Rightarrow> Inl SkipDrv
                | (p, Some v) \<Rightarrow>
                    if v = [] then Inl SkipDrv
                    else Inr \<lparr> name = n, pname = p, version = v,
                               patches = (if truthy patches_arg then the patches_arg
                                          else (case dict envVars ''patches'' of
                                                  None \<Rightarrow> [] | Some s \<Rightarrow> s)) \<rparr>))"

subsection \<open>Ordering of \<open>Derive\<close> objects\<close>

text \<open>
  \<open>compare_versions\<close> lives in \<open>utils.py\<close>; the two comparison methods take it as the
  parameter \<open>compare_versions\<close>, with results \<open>-1\<close>, \<open>0\<close> and \<open>1\<close>.
\<close>

definition Derive_lt :: "(string \<Rightarrow> string \<Rightarrow> int) \<Rightarrow> Derive \<Rightarrow> Derive \<Rightarrow> bool" where
  "Derive_lt compare_versions self other =
     (if pname self < pname other then True
      else if pname self > pname other then False
      else compare_versions (version self) (version other) = - 1)"

definition Derive_gt :: "(string \<Rightarrow> string \<Rightarrow> int) \<Rightarrow> Derive \<Rightarrow> Derive \<Rightarrow> bool" where
  "Derive_gt compare_versions self other =
     (if pname self > pname other then True
      else if pname self < pname other then True
      else compare_versions (version self) (version other) = 1)"

subsection \<open>Patched CVEs\<close>

text \<open>
  \<open>R_CVE = CVE-\d{4}-\d+\<close> with \<open>re.IGNORECASE\<close>. \<open>R_CVE_match_at s\<close> is the match
  that starts at the first character of \<open>s\<close>, with the text after it; the last group of
  digits is greedy.
\<close>

definition R_CVE_match_at :: "string \<Rightarrow> (string \<times> string) option" where
  "R_CVE_match_at s =
     (if 10 \<le> length s \<and> lower (take 4 s) = ''cve-'' \<and> list_all is_digit (take 4 (drop 4 s))
         \<and> s ! 8 = CHR ''-'' \<and> is_digit (s ! 9)
      then Some (take 9 s @ takeWhile is_digit (drop 9 s), dropWhile is_digit (drop 9 s))
      else None)"

text \<open>
  \<open>finditer\<close>: the matches from left to right, none overlapping another; where no match
  starts, the scan moves on by one character.
\<close>

function finditer_CVE :: "string \<Rightarrow> string list" where
  "finditer_CVE [] = []"
| "finditer_CVE (c # cs) =
     (case R_CVE_match_at (c # cs) of
        Some (m, rest) \<Rightarrow> m # finditer_CVE rest
      | None \<Rightarrow> finditer_CVE cs)"
  by pat_completeness auto
termination
proof (relation "measure length")
  fix c cs mr m rest
  assume "R_CVE_match_at (c # cs) = Some mr" and "(m, rest) = mr"
  then have "rest = dropWhile is_digit (drop 9 (c # cs))" and "10 \<le> length (c # cs)"
    by (auto simp: R_CVE_match_at_def split: if_splits)
  moreover have "length (dropWhile is_digit (drop 9 (c # cs))) \<le> length (drop 9 (c # cs))"
    by (rule length_dropWhile_le)
  ultimately show "(rest, c # cs) \<in> measure length" by simp
qed simp_all

definition applied_patches :: "Derive \<Rightarrow> string list" where
  \<comment> \<open>a Python \<open>set\<close>, kept as a list without duplicates\<close>
  "applied_patches self = fold List.insert (map upper (finditer_CVE (patches self))) []"

definition product_candidates :: "Derive \<Rightarrow> string list" where
  "product_candidates self =
     (let alternative = replace_char (CHR ''-'') (CHR ''_'') (pname self)
      in pname self # (if alternative \<noteq> pname self then [alternative] else []))"

section \<open>nvd.py\<close>

subsection \<open>Records and the store\<close>

text \<open>
  \<open>vulnerability.py\<close> is not part of the sources at hand. A vulnerability carries its
  \<open>cve_id\<close> and its \<open>nodes\<close>, each node a \<open>product\<close> and a version condition that stays
  opaque (\<open>vspec\<close>); \<open>Vulnerability.match\<close> is the parameter \<open>vmatch\<close> wherever it is
  called. Two vulnerabilities are the same element of a Python \<open>set\<close> when they are equal
  as values.
\<close>

record 'a node =
  product :: string
  vspec :: 'a

record 'a Vulnerability =
  cve_id :: string
  nodes :: "'a node list"

record Meta =
  pack_counter :: nat
  last_update :: int
  etag :: "(string \<times> string) list option"

text \<open>
  An \<open>OOBTree\<close> is kept as an association list in ascending key order: \<open>btree_set\<close> is
  \<open>t[k] = v\<close>, \<open>map_of\<close> the lookup, \<open>map snd\<close> the iteration \<open>values()\<close>.
\<close>

fun btree_set :: "string \<Rightarrow> 'v \<Rightarrow> (string \<times> 'v) list \<Rightarrow> (string \<times> 'v) list" where
  "btree_set k v [] = [(k, v)]"
| "btree_set k v ((k', v') # t) =
     (if k = k' then (k, v) # t
      else if k < k' then (k, v) # (k', v') # t
      else (k', v') # btree_set k v t)"

record 'a Root =
  advisory :: "(string \<times> 'a Vulnerability) list"
  by_product :: "(string \<times> 'a Vulnerability list) list"
  meta :: Meta

definition Meta_init :: Meta where
  \<comment> \<open>the class attributes of \<open>Meta\<close>; \<open>last_update\<close> starts at 1970-01-01, time 0\<close>
  "Meta_init = \<lparr> pack_counter = 0, last_update = 0, etag = None \<rparr>"

definition Root_init :: "'a Root" where
  \<comment> \<open>the root of a new database after the three \<open>setdefault\<close> calls of \<open>__enter__\<close>\<close>
  "Root_init = \<lparr> advisory = [], by_product = [], meta = Meta_init \<rparr>"

subsection \<open>Ingest, index and queries\<close>

definition NVD_add :: "(string \<times> 'a Vulnerability) list \<Rightarrow> 'a Root \<Rightarrow> 'a Root" where
  \<comment> \<open>the argument is \<open>archive.items()\<close>\<close>
  "NVD_add items root =
     root \<lparr> advisory := fold (\<lambda>(cve_id, adv) advisories. btree_set cve_id adv advisories)
                            items (advisory root) \<rparr>"

definition index_append ::
  "'a Vulnerability \<Rightarrow> string \<Rightarrow> (string \<times> 'a Vulnerability list) list
     \<Rightarrow> (string \<times> 'a Vulnerability list) list" where
  \<comment> \<open>the body of the inner loop of \<open>reindex\<close>\<close>
  "index_append vuln prd bp =
     (let bp = (if map_of bp prd = None then btree_set prd [] bp else bp)
      in btree_set prd (the (map_of bp prd) @ [vuln]) bp)"

definition NVD_reindex :: "'a Root \<Rightarrow> 'a Root" where
  "NVD_reindex root =
     root \<lparr> by_product :=
              fold (\<lambda>vuln bp. fold (index_append vuln) (map product (nodes vuln)) bp)
                   (map snd (advisory root)) [] \<rparr>"

definition NVD_by_id :: "'a Root \<Rightarrow> string \<Rightarrow> error + 'a Vulnerability" where
  "NVD_by_id root cve = (case map_of (advisory root) cve of None \<Rightarrow> Inl KeyError | Some v \<Rightarrow> Inr v)"

definition NVD_by_product :: "'a Root \<Rightarrow> string \<Rightarrow> 'a Vulnerability list" where
  "NVD_by_product root prd = (case map_of (by_product root) prd of None \<Rightarrow> [] | Some vs \<Rightarrow> vs)"

definition NVD_affected ::
  "('a Vulnerability \<Rightarrow> string \<Rightarrow> string \<Rightarrow> bool) \<Rightarrow> 'a Root \<Rightarrow> string \<Rightarrow> string
     \<Rightarrow> 'a Vulnerability list" where
  \<comment> \<open>the result is a Python \<open>set\<close>, kept as a list without duplicates\<close>
  "NVD_affected vmatch root pn ver =
     fold (\<lambda>vuln res. if vmatch vuln pn ver then List.insert vuln res else res)
          (NVD_by_product root pn) []"

subsection \<open>Session metadata\<close>

definition should_pack :: "Meta \<Rightarrow> bool \<times> Meta" where
  \<comment> \<open>the returned value and the updated object\<close>
  "should_pack self =
     (let self = self \<lparr> pack_counter := pack_counter self + 1 \<rparr>
      in if pack_counter self > 25 then (True, self \<lparr> pack_counter := 0 \<rparr>) else (False, self))"

definition headers_for :: "Meta \<Rightarrow> string \<Rightarrow> (string \<times> string) list" where
  \<comment> \<open>\<open>self.etag\<close> is false when it is \<open>None\<close> or an empty tree, which holds no url\<close>
  "headers_for self url =
     (case etag self of
        None \<Rightarrow> []
      | Some t \<Rightarrow> (case map_of t url of
                    None \<Rightarrow> []
                  | Some tag \<Rightarrow> [(''If-None-Match'', tag)]))"

definition update_headers_for :: "Meta \<Rightarrow> string \<Rightarrow> string option \<Rightarrow> Meta" where
  \<comment> \<open>the third argument is the \<open>ETag\<close> entry of the response headers, if there is one\<close>
  "update_headers_for self url resp_etag =
     (case resp_etag of
        None \<Rightarrow> self
      | Some tag \<Rightarrow>
          self \<lparr> etag := Some (btree_set url tag (case etag self of None \<Rightarrow> [] | Some t \<Rightarrow> t)) \<rparr>)"

subsection \<open>Feed segments: \<open>Archive\<close>\<close>

datatype segment = Year int | Modified

function str_nat :: "nat \<Rightarrow> string" where
  "str_nat n = (if n < 10 then [char_of (48 + n)]
                else str_nat (n div 10) @ [char_of (48 + n mod 10)])"
  by pat_completeness auto
termination
  by (relation "measure id") auto

declare str_nat.simps [simp del]

definition str_int :: "int \<Rightarrow> string" where
  "str_int i = (if i < 0 then CHR ''-'' # str_nat (nat (- i)) else str_nat (nat i))"

definition download_uri :: "segment \<Rightarrow> string" where
  "download_uri a =
     ''nvdcve-1.1-'' @ (case a of Year y \<Rightarrow> str_int y | Modified \<Rightarrow> ''modified'') @ ''.json.gz''"

text \<open>
  The world outside: \<open>http_get url headers\<close> is \<open>requests.get\<close>, which raises (\<open>Inl\<close>)
  or returns a response; \<open>decode\<close> is \<open>gzip.decompress\<close> followed by \<open>json.loads\<close>
  and the selection of \<open>CVE_Items\<close> (\<open>None\<close>: one of them raises); \<open>vparse\<close> is
  \<open>Vulnerability.parse\<close>. Of the response headers only the \<open>ETag\<close> entry is read.
\<close>

record response =
  status_code :: nat
  content :: string
  etag_header :: "string option"

record ('i, 'a) world =
  http_get :: "string \<Rightarrow> (string \<times> string) list \<Rightarrow> error + response"
  decode :: "string \<Rightarrow> 'i list option"
  vparse :: "'i \<Rightarrow> error + 'a Vulnerability"

fun parse_items ::
  "('i \<Rightarrow> error + 'a Vulnerability) \<Rightarrow> 'i list \<Rightarrow> (string \<times> 'a Vulnerability) list
     \<Rightarrow> error + (string \<times> 'a Vulnerability) list" where
  "parse_items vp [] advisories = Inr advisories"
| "parse_items vp (item # items) advisories =
     (case vp item of
        Inr vuln \<Rightarrow> parse_items vp items (AList.update (cve_id vuln) vuln advisories)
      | Inl e \<Rightarrow> if e = ValueError then parse_items vp items advisories else Inl e)"

definition Archive_parse ::
  "('i, 'a) world \<Rightarrow> string \<Rightarrow> error + (string \<times> 'a Vulnerability) list" where
  \<comment> \<open>the result is \<open>self.advisories\<close>, a \<open>dict\<close> that starts empty\<close>
  "Archive_parse w nvd_json =
     (case decode w nvd_json of
        None \<Rightarrow> Inl DecodeError
      | Some items \<Rightarrow> parse_items (vparse w) items [])"

definition Archive_download ::
  "('i, 'a) world \<Rightarrow> int \<Rightarrow> string \<Rightarrow> Meta \<Rightarrow> segment
     \<Rightarrow> error + (string \<times> 'a Vulnerability) list \<times> Meta" where
  \<comment> \<open>\<open>now\<close> is the reading of \<open>datetime.now()\<close>; the result is \<open>self.advisories\<close> with
      the updated metadata\<close>
  "Archive_download w now mirror_url metadata a =
     (let url = mirror_url @ download_uri a
      in case http_get w url (headers_for metadata url) of
           Inl e \<Rightarrow> Inl e
         | Inr r \<Rightarrow>
             if 400 \<le> status_code r \<and> status_code r < 600 then Inl HTTPError
             else if status_code r = 200 then
               (case Archive_parse w (content r) of
                  Inl e \<Rightarrow> Inl e
                | Inr advisories \<Rightarrow>
                    Inr (advisories,
                         (update_headers_for metadata url (etag_header r)) \<lparr> last_update := now \<rparr>))
             else Inr ([], metadata))"

subsection \<open>The sync: \<open>NVD.update\<close>\<close>

record NVD =
  mirror :: string
  available_archives :: "int list"

definition rstrip :: "char \<Rightarrow> string \<Rightarrow> string" where
  "rstrip c s = rev (dropWhile (\<lambda>x. x = c) (rev s))"

definition NVD_init :: "string \<Rightarrow> int \<Rightarrow> NVD" where
  \<comment> \<open>\<open>current\<close> is \<open>date.today().year\<close>\<close>
  "NVD_init mirror_arg current =
     \<lparr> mirror = rstrip (CHR ''/'') mirror_arg @ ''/'',
       available_archives = [current - 5 .. current] \<rparr>"

text \<open>Time is counted in microseconds, the resolution of \<open>datetime\<close>, from 1970-01-01.\<close>

definition hours :: "int \<Rightarrow> int" where
  "hours n = n * 3600000000"

definition days :: "int \<Rightarrow> int" where
  "days n = n * 86400000000"

definition NVD_relevant_archives :: "NVD \<Rightarrow> int \<Rightarrow> 'a Root \<Rightarrow> segment list" where
  "NVD_relevant_archives self now root =
     (if last_update (meta root) > now - hours 1 then []
      else if last_update (meta root) > now - days 7 then [Modified]
      else map Year (available_archives self) @ [Modified])"

text \<open>
  The loop of \<open>update\<close>. An exception ends it; the result holds the URLs requested so far
  (one \<open>requests.get\<close> each, in order), the root as the loop left it, and the exception.
  One run reads the clock as \<open>now\<close> throughout.
\<close>

fun update_loop ::
  "('i, 'a) world \<Rightarrow> int \<Rightarrow> NVD \<Rightarrow> segment list \<Rightarrow> string list \<Rightarrow> 'a Root
     \<Rightarrow> string list \<times> 'a Root \<times> error option" where
  "update_loop w now self [] fetched root = (fetched, root, None)"
| "update_loop w now self (a # as) fetched root =
     (case Archive_download w now (mirror self) (meta root) a of
        Inl e \<Rightarrow> (fetched @ [mirror self @ download_uri a], root, Some e)
      | Inr (advisories, metadata) \<Rightarrow>
          update_loop w now self as (fetched @ [mirror self @ download_uri a])
            (NVD_add advisories (root \<lparr> meta := metadata \<rparr>)))"

definition NVD_update ::
  "('i, 'a) world \<Rightarrow> int \<Rightarrow> NVD \<Rightarrow> 'a Root \<Rightarrow> string list \<times> 'a Root \<times> error option" where
  "NVD_update w now self root =
     (case update_loop w now self (NVD_relevant_archives self now root) [] root of
        (fetched, root, Some e) \<Rightarrow> (fetched, root, Some e)
      | (fetched, root, None) \<Rightarrow> (fetched, NVD_reindex root, None))"

text \<open>
  \<open>__exit__\<close>: \<open>clean\<close> says that \<open>exc_type\<close> is \<open>None\<close>. The database keeps the last
  committed root; \<open>commit\<close> makes the working root the committed one, \<open>abort\<close> drops the
  working root. The result tells whether \<open>pack\<close> ran, and the committed root.
\<close>

definition NVD_exit :: "bool \<Rightarrow> 'a Root \<Rightarrow> 'a Root \<Rightarrow> bool \<times> 'a Root" where
  "NVD_exit clean committed working =
     (if clean
      then (let (packing, m) = should_pack (meta working) in (packing, working \<lparr> meta := m \<rparr>))
      else (False, committed))"

text \<open>
  A session that ends without an exception and whose body leaves the root as it found
  it, and the committed root after \<open>n\<close> such sessions in a row.
\<close>

definition clean_session :: "'a Root \<Rightarrow> bool \<times> 'a Root" where
  "clean_session root = NVD_exit True root root"

primrec after_sessions :: "nat \<Rightarrow> 'a Root \<Rightarrow> 'a Root" where
  "after_sessions 0 root = root"
| "after_sessions (Suc n) root = snd (clean_session (after_sessions n root))"

section \<open>The matching engine: \<open>Derive.check\<close>\<close>

fun check_loop ::
  "('a Vulnerability \<Rightarrow> string \<Rightarrow> string \<Rightarrow> bool) \<Rightarrow> 'a Root \<Rightarrow> Derive \<Rightarrow> string list
     \<Rightarrow> string list \<Rightarrow> 'a Vulnerability list \<Rightarrow> 'a Vulnerability list" where
  "check_loop vmatch nvd self patched_cves [] affected_by = affected_by"
| "check_loop vmatch nvd self patched_cves (pn # pns) affected_by =
     (let affected_by =
            fold (\<lambda>vuln acc. if cve_id vuln \<notin> set patched_cves then List.insert vuln acc else acc)
                 (NVD_affected vmatch nvd pn (version self)) affected_by
      in if affected_by \<noteq> [] then affected_by
         else check_loop vmatch nvd self patched_cves pns affected_by)"

definition check ::
  "('a Vulnerability \<Rightarrow> string \<Rightarrow> string \<Rightarrow> bool) \<Rightarrow> Derive \<Rightarrow> 'a Root \<Rightarrow> 'a Vulnerability list" where
  "check vmatch self nvd =
     check_loop vmatch nvd self (applied_patches self) (product_candidates self) []"

section \<open>The splitting rule in the words of the specification\<close>

text \<open>
  For comparison with \<open>split_name\<close>: lower-case the name and split it at the first \<open>-\<close>
  that is followed by a digit; the product name is what stands before that dash, the
  version what stands after it.
\<close>

fun first_dash_digit :: "string \<Rightarrow> string \<Rightarrow> (string \<times> string) option" where
  "first_dash_digit acc [] = None"
| "first_dash_digit acc [c] = None"
| "first_dash_digit acc (c # d # cs) =
     (if c = CHR ''-'' \<and> is_digit d then Some (acc, d # cs)
      else first_dash_digit (acc @ [c]) (d # cs))"

definition split_name_spec :: "string \<Rightarrow> string \<times> string option" where
  "split_name_spec fullname =
     (case first_dash_digit [] (lower fullname) of
        Some (p, v) \<Rightarrow> (p, Some v)
      | None \<Rightarrow> (lower fullname, None))"

section \<open>Sample data\<close>

text \<open>
  A small instance for the examples below: the version condition of a node is the list
  of the affected versions, and \<open>sample_match\<close> holds when some node names the product
  and lists the version.
\<close>

definition sample_match :: "string list Vulnerability \<Rightarrow> string \<Rightarrow> string \<Rightarrow> bool" where
  "sample_match vuln pn ver = list_ex (\<lambda>n. product n = pn \<and> ver \<in> set (vspec n)) (nodes vuln)"

definition cve_1234 :: "string list Vulnerability" where
  "cve_1234 = \<lparr> cve_id = ''CVE-2021-1234'',
                nodes = [\<lparr> product = ''foo'', vspec = [''1.0''] \<rparr>,
                         \<lparr> product = ''foo'', vspec = [''1.1''] \<rparr>] \<rparr>"

definition cve_1234_old :: "string list Vulnerability" where
  "cve_1234_old = \<lparr> cve_id = ''CVE-2021-1234'',
                    nodes = [\<lparr> product = ''bar'', vspec = [''0.9''] \<rparr>] \<rparr>"

definition cve_77 :: "string list Vulnerability" where
  "cve_77 = \<lparr> cve_id = ''CVE-2021-77'', nodes = [\<lparr> product = ''foo'', vspec = [''1.0''] \<rparr>] \<rparr>"

definition cve_9 :: "string list Vulnerability" where
  "cve_9 = \<lparr> cve_id = ''CVE-2020-9'', nodes = [\<lparr> product = ''foo_bar'', vspec = [''2.0''] \<rparr>] \<rparr>"

definition sample_root :: "string list Root" where
  "sample_root =
     NVD_reindex (NVD_add [(''CVE-2021-1234'', cve_1234), (''CVE-2021-77'', cve_77),
                           (''CVE-2020-9'', cve_9)] Root_init)"

definition drv_patched :: Derive where
  "drv_patched = \<lparr> name = ''foo-1.0'', pname = ''foo'', version = ''1.0'',
                   patches = ''fix-cve-2021-1234.patch'' \<rparr>"

definition drv_other_patch :: Derive where
  "drv_other_patch = \<lparr> name = ''foo-1.0'', pname = ''foo'', version = ''1.0'',
                       patches = ''CVE-2021-12345.patch'' \<rparr>"

definition Root_init_1234 :: "string list Root" where
  "Root_init_1234 = NVD_add [(''CVE-2021-1234'', cve_1234)] Root_init"

definition cve_55 :: "string list Vulnerability" where
  "cve_55 = \<lparr> cve_id = ''CVE-2021-55'', nodes = [\<lparr> product = ''foo-bar'', vspec = [''2.0''] \<rparr>] \<rparr>"

definition root_both :: "string list Root" where
  \<comment> \<open>a store that knows both spellings, \<open>foo-bar\<close> and \<open>foo_bar\<close>\<close>
  "root_both =
     NVD_reindex (NVD_add [(''CVE-2020-9'', cve_9), (''CVE-2021-55'', cve_55)] Root_init)"

definition drv_foo_bar :: Derive where
  "drv_foo_bar = \<lparr> name = ''foo-bar-2.0'', pname = ''foo-bar'', version = ''2.0'', patches = [] \<rparr>"

definition drv_a :: Derive where
  "drv_a = \<lparr> name = ''a-1'', pname = ''a'', version = ''1'', patches = [] \<rparr>"

definition drv_b :: Derive where
  "drv_b = \<lparr> name = ''b-1'', pname = ''b'', version = ''1'', patches = [] \<rparr>"

definition no_json :: "string \<Rightarrow> (string \<Rightarrow> string option) option" where
  \<comment> \<open>a \<open>json.loads\<close> that is never given JSON\<close>
  "no_json text = None"

text \<open>
  A mirror and four servers: one that fails on the segment of 2016 and serves one
  advisory for every other segment, one that answers \<open>304 Not Modified\<close> to every
  request, one that serves one advisory for every segment, and one that serves it
  unless the request carries the validator of the feed.
\<close>

definition sample_nvd :: NVD where
  "sample_nvd = NVD_init ''https://mirror/'' 2020"

definition world_fail_2016 :: "(unit, string list) world" where
  "world_fail_2016 =
     \<lparr> http_get = (\<lambda>url headers.
          if url = ''https://mirror/nvdcve-1.1-2016.json.gz''
          then Inr \<lparr> status_code = 500, content = [], etag_header = None \<rparr>
          else Inr \<lparr> status_code = 200, content = ''feed'', etag_header = Some ''v1'' \<rparr>),
       decode = (\<lambda>body. Some [()]),
       vparse = (\<lambda>item. Inr cve_77) \<rparr>"

definition world_304 :: "(unit, string list) world" where
  "world_304 =
     \<lparr> http_get = (\<lambda>url headers. Inr \<lparr> status_code = 304, content = [], etag_header = None \<rparr>),
       decode = (\<lambda>body. None),
       vparse = (\<lambda>item. Inl ValueError) \<rparr>"

definition world_200 :: "(unit, string list) world" where
  "world_200 =
     \<lparr> http_get = (\<lambda>url headers.
          Inr \<lparr> status_code = 200, content = ''feed'', etag_header = Some ''v1'' \<rparr>),
       decode = (\<lambda>body. Some [()]),
       vparse = (\<lambda>item. Inr cve_77) \<rparr>"

definition world_etag :: "(unit, string list) world" where
  \<comment> \<open>a server that honours \<open>If-None-Match\<close>: its feeds all carry the validator \<open>v1\<close>\<close>
  "world_etag =
     \<lparr> http_get = (\<lambda>url headers.
          if map_of headers ''If-None-Match'' = Some ''v1''
          then Inr \<lparr> status_code = 304, content = [], etag_header = None \<rparr>
          else Inr \<lparr> status_code = 200, content = ''feed'', etag_header = Some ''v1'' \<rparr>),
       decode = (\<lambda>body. Some [()]),
       vparse = (\<lambda>item. Inr cve_77) \<rparr>"

definition root_stale :: "string list Root" where
  \<comment> \<open>a store last updated ten hours after the epoch\<close>
  "root_stale = Root_init \<lparr> meta := Meta_init \<lparr> last_update := hours 10 \<rparr> \<rparr>"

section \<open>Properties\<close>

subsection \<open>The scan for patched CVEs\<close>

lemma is_digit_lower: "is_digit x \<Longrightarrow> lower_char x \<noteq> CHR ''c''"
  by (auto simp: is_digit_def lower_char_def code_def)

lemma length_ge_10E:
  assumes "10 \<le> length t"
  obtains c0 c1 c2 c3 d0 d1 d2 d3 h d4 r where "t = c0#c1#c2#c3#d0#d1#d2#d3#h#d4#r"
  using assms by (auto simp: Suc_le_length_iff numeral_eq_Suc)

lemma R_CVE_match_at_Cons10:
  "R_CVE_match_at (c0#c1#c2#c3#d0#d1#d2#d3#h#d4#r) =
     (if lower_char c0 = CHR ''c'' \<and> lower_char c1 = CHR ''v'' \<and> lower_char c2 = CHR ''e''
         \<and> lower_char c3 = CHR ''-'' \<and> is_digit d0 \<and> is_digit d1 \<and> is_digit d2 \<and> is_digit d3
         \<and> h = CHR ''-'' \<and> is_digit d4
      then Some (c0#c1#c2#c3#d0#d1#d2#d3#h#d4# takeWhile is_digit r, dropWhile is_digit r)
      else None)"
  by (simp add: R_CVE_match_at_def lower_def)

lemma R_CVE_match_at_split:
  "R_CVE_match_at t = Some (m, rest) \<Longrightarrow> t = m @ rest"
proof -
  assume a: "R_CVE_match_at t = Some (m, rest)"
  then have "10 \<le> length t" by (simp add: R_CVE_match_at_def split: if_splits)
  then obtain c0 c1 c2 c3 d0 d1 d2 d3 h d4 r where t: "t = c0#c1#c2#c3#d0#d1#d2#d3#h#d4#r"
    by (rule length_ge_10E)
  from a show ?thesis unfolding t R_CVE_match_at_Cons10 by (auto split: if_splits)
qed

lemma R_CVE_match_at_head:
  "R_CVE_match_at t = Some (m, rest) \<Longrightarrow> m \<noteq> [] \<and> lower_char (hd m) = CHR ''c''"
proof -
  assume a: "R_CVE_match_at t = Some (m, rest)"
  then have "10 \<le> length t" by (simp add: R_CVE_match_at_def split: if_splits)
  then obtain c0 c1 c2 c3 d0 d1 d2 d3 h d4 r where t: "t = c0#c1#c2#c3#d0#d1#d2#d3#h#d4#r"
    by (rule length_ge_10E)
  from a show ?thesis unfolding t R_CVE_match_at_Cons10 by (auto split: if_splits)
qed

lemma R_CVE_match_at_inner:
  assumes a: "R_CVE_match_at t = Some (m, rest)" and x: "x \<in> set (tl m)"
  shows "lower_char x \<noteq> CHR ''c''"
proof -
  from a have "10 \<le> length t" by (simp add: R_CVE_match_at_def split: if_splits)
  then obtain c0 c1 c2 c3 d0 d1 d2 d3 h d4 r where t: "t = c0#c1#c2#c3#d0#d1#d2#d3#h#d4#r"
    by (rule length_ge_10E)
  from a have c: "lower_char c1 = CHR ''v''" "lower_char c2 = CHR ''e''" "lower_char c3 = CHR ''-''"
     "is_digit d0" "is_digit d1" "is_digit d2" "is_digit d3" "h = CHR ''-''" "is_digit d4"
    and m: "m = c0#c1#c2#c3#d0#d1#d2#d3#h#d4# takeWhile is_digit r"
    unfolding t R_CVE_match_at_Cons10 by (auto split: if_splits)
  from x m have "x \<in> {c1, c2, c3, d0, d1, d2, d3, h, d4} \<or> x \<in> set (takeWhile is_digit r)"
    by auto
  then show ?thesis
  proof
    assume "x \<in> {c1, c2, c3, d0, d1, d2, d3, h, d4}"
    with c show ?thesis by (auto dest: is_digit_lower simp: lower_char_def code_def)
  next
    assume "x \<in> set (takeWhile is_digit r)"
    then have "is_digit x" by (rule set_takeWhileD[THEN conjunct2])
    then show ?thesis by (rule is_digit_lower)
  qed
qed

lemma R_CVE_match_at_maximal:
  assumes s: "R_CVE_match_at s = Some (s, [])" and p: "post = [] \<or> \<not> is_digit (hd post)"
  shows "R_CVE_match_at (s @ post) = Some (s, post)"
proof -
  from s have "10 \<le> length s" by (simp add: R_CVE_match_at_def split: if_splits)
  then obtain c0 c1 c2 c3 d0 d1 d2 d3 h d4 r where t: "s = c0#c1#c2#c3#d0#d1#d2#d3#h#d4#r"
    by (rule length_ge_10E)
  from s have c: "lower_char c0 = CHR ''c''" "lower_char c1 = CHR ''v''" "lower_char c2 = CHR ''e''" "lower_char c3 = CHR ''-''"
     "is_digit d0" "is_digit d1" "is_digit d2" "is_digit d3" "h = CHR ''-''" "is_digit d4"
    and r: "takeWhile is_digit r = r" "dropWhile is_digit r = []"
    unfolding t R_CVE_match_at_Cons10 by (auto split: if_splits)
  from r have all: "\<forall>x\<in>set r. is_digit x" by (simp add: dropWhile_eq_Nil_conv)
  from p have tw: "takeWhile is_digit post = []" by (cases post) auto
  from p have dw: "dropWhile is_digit post = post" by (cases post) auto
  have 1: "takeWhile is_digit (r @ post) = r" using all tw by (simp add: takeWhile_append2)
  have 2: "dropWhile is_digit (r @ post) = post" using all dw by (simp add: dropWhile_append2)
  show ?thesis unfolding t using c 1 2 by (simp add: R_CVE_match_at_Cons10)
qed

lemma finditer_CVE_found:
  assumes s: "R_CVE_match_at s = Some (s, [])" and p: "post = [] \<or> \<not> is_digit (hd post)"
  shows "t = pre @ s @ post \<Longrightarrow> s \<in> set (finditer_CVE t)"
proof (induction t arbitrary: pre rule: finditer_CVE.induct)
  case 1
  with R_CVE_match_at_head[OF s] show ?case by simp
next
  case (2 c cs)
  show ?case
  proof (cases pre)
    case Nil
    with 2(3) R_CVE_match_at_maximal[OF s p] have "R_CVE_match_at (c # cs) = Some (s, post)"
      by simp
    then show ?thesis by simp
  next
    case (Cons a pre')
    show ?thesis
    proof (cases "R_CVE_match_at (c # cs)")
      case None
      with 2(1)[OF None, of pre'] 2(3) Cons show ?thesis by simp
    next
      case (Some mr)
      obtain m rest where mr: "mr = (m, rest)" by (cases mr)
      note M = Some[unfolded mr]
      have split: "c # cs = m @ rest" by (rule R_CVE_match_at_split[OF M])
      have "length m \<le> length pre"
      proof (rule ccontr)
        assume "\<not> length m \<le> length pre"
        then have l: "length pre < length m" by simp
        have "m ! length pre = (c # cs) ! length pre" using split l by (simp add: nth_append)
        also have "\<dots> = hd s" using 2(3) R_CVE_match_at_head[OF s] by (simp add: nth_append hd_conv_nth)
        finally have e: "m ! length pre = hd s" .
        have "m ! length pre \<in> set (tl m)"
          using l Cons by (cases m) auto
        from R_CVE_match_at_inner[OF M this] e R_CVE_match_at_head[OF s] show False by simp
      qed
      then have "rest = drop (length m) pre @ s @ post"
        using split 2(3) by (metis append_eq_conv_conj drop_append diff_is_0_eq drop_0)
      from 2(2)[OF Some mr[symmetric] this] show ?thesis using M by simp
    qed
  qed
qed

lemma set_fold_insert_if:
  "set (fold (\<lambda>x acc. if P x then List.insert x acc else acc) xs acc) = set acc \<union> {x \<in> set xs. P x}"
  by (induction xs arbitrary: acc) auto

lemma distinct_fold_insert_if:
  "distinct acc \<Longrightarrow> distinct (fold (\<lambda>x acc. if P x then List.insert x acc else acc) xs acc)"
  by (induction xs arbitrary: acc) auto

lemma set_applied_patches: "set (applied_patches self) = upper ` set (finditer_CVE (patches self))"
proof -
  have "set (fold List.insert xs acc) = set acc \<union> set xs" for xs acc :: "string list"
    by (induction xs arbitrary: acc) auto
  then show ?thesis by (simp add: applied_patches_def)
qed

lemma set_check:
  "set (check vmatch self nvd) =
     (let u = (\<lambda>pn. {v \<in> set (NVD_affected vmatch nvd pn (version self)).
                       cve_id v \<notin> set (applied_patches self)});
          alternative = replace_char (CHR ''-'') (CHR ''_'') (pname self)
      in if u (pname self) \<noteq> {} then u (pname self)
         else if alternative \<noteq> pname self then u alternative else {})"
  by (auto simp: check_def product_candidates_def Let_def set_fold_insert_if
           simp flip: set_empty)

text \<open>
  C2. The candidates are the product name and then, only if it differs, the name with
  every \<open>-\<close> replaced by \<open>_\<close>: \<open>foo-bar\<close> and \<open>foo_bar\<close> for \<open>foo-bar\<close>, \<open>foo\<close>
  alone for \<open>foo\<close>. The result of \<open>check\<close> is the set of unremediated matches of the
  first candidate that has one; a later candidate adds nothing to it, and with no such
  candidate the result is empty. So \<open>foo-bar\<close>, unknown to the sample store, is found
  under \<open>foo_bar\<close>; in a store that knows both spellings only the matches of
  \<open>foo-bar\<close> are returned.
\<close>

theorem check_first_candidate:
  "product_candidates self =
     pname self # (if map (\<lambda>c. if c = CHR ''-'' then CHR ''_'' else c) (pname self) \<noteq> pname self
                   then [map (\<lambda>c. if c = CHR ''-'' then CHR ''_'' else c) (pname self)] else [])
   \<and> set (check vmatch self nvd) =
     (let u = (\<lambda>pn. {v \<in> set (NVD_affected vmatch nvd pn (version self)).
                       cve_id v \<notin> set (applied_patches self)});
          alternative = map (\<lambda>c. if c = CHR ''-'' then CHR ''_'' else c) (pname self)
      in if u (pname self) \<noteq> {} then u (pname self)
         else if alternative \<noteq> pname self then u alternative else {})
   \<and> product_candidates drv_foo_bar = [''foo-bar'', ''foo_bar'']
   \<and> product_candidates drv_patched = [''foo'']
   \<and> NVD_affected sample_match sample_root ''foo-bar'' ''2.0'' = []
   \<and> check sample_match drv_foo_bar sample_root = [cve_9]
   \<and> NVD_affected sample_match root_both ''foo-bar'' ''2.0'' = [cve_55]
   \<and> NVD_affected sample_match root_both ''foo_bar'' ''2.0'' = [cve_9]
   \<and> check sample_match drv_foo_bar root_both = [cve_55]"
proof (intro conjI)
  show "product_candidates self =
     pname self # (if map (\<lambda>c. if c = CHR ''-'' then CHR ''_'' else c) (pname self) \<noteq> pname self
                   then [map (\<lambda>c. if c = CHR ''-'' then CHR ''_'' else c) (pname self)] else [])"
    by (simp add: product_candidates_def replace_char_def Let_def)
  show "set (check vmatch self nvd) =
     (let u = (\<lambda>pn. {v \<in> set (NVD_affected vmatch nvd pn (version self)).
                       cve_id v \<notin> set (applied_patches self)});
          alternative = map (\<lambda>c. if c = CHR ''-'' then CHR ''_'' else c) (pname self)
      in if u (pname self) \<noteq> {} then u (pname self)
         else if alternative \<noteq> pname self then u alternative else {})"
    using set_check[of vmatch self nvd] by (simp only: replace_char_def)
  show "product_candidates drv_foo_bar = [''foo-bar'', ''foo_bar'']" by code_simp
  show "product_candidates drv_patched = [''foo'']" by code_simp
  show "NVD_affected sample_match sample_root ''foo-bar'' ''2.0'' = []" by code_simp
  show "check sample_match drv_foo_bar sample_root = [cve_9]" by code_simp
  show "NVD_affected sample_match root_both ''foo-bar'' ''2.0'' = [cve_55]" by code_simp
  show "NVD_affected sample_match root_both ''foo_bar'' ''2.0'' = [cve_9]" by code_simp
  show "check sample_match drv_foo_bar root_both = [cve_55]" by code_simp
qed

text \<open>
  C1, as stated, fails: the patch text \<open>CVE-2021-12345.patch\<close> contains the substring
  \<open>CVE-2021-1234\<close>, which matches the pattern, and \<open>check\<close> still reports
  \<open>CVE-2021-1234\<close>. The scan takes the longest run of digits.
\<close>

theorem check_substring_counterexample:
  "patches drv_other_patch = [] @ ''CVE-2021-1234'' @ ''5.patch''
   \<and> R_CVE_match_at ''CVE-2021-1234'' = Some (''CVE-2021-1234'', [])
   \<and> cve_1234 \<in> set (check sample_match drv_other_patch sample_root)
   \<and> cve_id cve_1234 = upper ''CVE-2021-1234''"
  by code_simp

text \<open>
  C1, amended. If the patch text contains a substring that matches the CVE pattern
  (in any letter case) and is not followed by one more digit, then \<open>check\<close> reports no
  vulnerability whose \<open>cve_id\<close> is the upper-cased substring, whatever the index and
  the version conditions say.
\<close>

theorem check_excludes_patched:
  assumes "patches self = pre @ s @ post"
    and "R_CVE_match_at s = Some (s, [])"
    and "post = [] \<or> \<not> is_digit (hd post)"
    and "v \<in> set (check vmatch self nvd)"
  shows "cve_id v \<noteq> upper s"
proof -
  have "s \<in> set (finditer_CVE (patches self))"
    using assms(2,3,1) by (rule finditer_CVE_found)
  then have "upper s \<in> set (applied_patches self)"
    by (simp add: set_applied_patches)
  moreover have "cve_id v \<notin> set (applied_patches self)"
    using assms(4) by (auto simp: set_check Let_def split: if_splits)
  ultimately show ?thesis by auto
qed

theorem check_excludes_patched_witness:
  "patches drv_patched = ''fix-'' @ ''cve-2021-1234'' @ ''.patch''
   \<and> R_CVE_match_at ''cve-2021-1234'' = Some (''cve-2021-1234'', [])
   \<and> \<not> is_digit (hd ''.patch'')
   \<and> sample_match cve_1234 (pname drv_patched) (version drv_patched)
   \<and> cve_1234 \<in> set (NVD_by_product sample_root (pname drv_patched))
   \<and> upper ''cve-2021-1234'' = cve_id cve_1234
   \<and> cve_77 \<in> set (check sample_match drv_patched sample_root)
   \<and> cve_id cve_77 \<noteq> upper ''cve-2021-1234''"
proof -
  have 1: "patches drv_patched = ''fix-'' @ ''cve-2021-1234'' @ ''.patch''" by code_simp
  have 2: "R_CVE_match_at ''cve-2021-1234'' = Some (''cve-2021-1234'', [])" by code_simp
  have 3: "''.patch'' = [] \<or> \<not> is_digit (hd ''.patch'')" by code_simp
  have 4: "cve_77 \<in> set (check sample_match drv_patched sample_root)" by code_simp
  have 5: "sample_match cve_1234 (pname drv_patched) (version drv_patched)" by code_simp
  have 6: "cve_1234 \<in> set (NVD_by_product sample_root (pname drv_patched))" by code_simp
  have 7: "upper ''cve-2021-1234'' = cve_id cve_1234" by code_simp
  have 8: "\<not> is_digit (hd ''.patch'')" by code_simp
  from check_excludes_patched [OF 1 2 3 4] 1 2 4 5 6 7 8 show ?thesis by blast
qed

subsection \<open>Splitting names\<close>

lemma version_tail_no_space:
  assumes "is_digit d" and "\<forall>c\<in>set r. \<not> is_space c"
  shows "version_tail (d # r) = Some (d # r)"
proof -
  from assms(2) have "dropWhile (\<lambda>c. \<not> is_space c) r = []" by simp
  moreover from assms(2) have "takeWhile (\<lambda>c. \<not> is_space c) r = r" by simp
  ultimately show ?thesis using assms(1) by (simp add: version_tail_def)
qed

lemma version_tail_digit:
  "version_tail cs \<noteq> None \<Longrightarrow> cs \<noteq> [] \<and> is_digit (hd cs)"
  by (cases cs) (auto simp: version_tail_def split: if_splits)

lemma R_VERSION_scan_first:
  assumes "is_digit d" and "\<forall>c\<in>set r. \<not> is_space c"
  shows "\<forall>c\<in>set q. \<not> is_space c \<Longrightarrow> acc \<noteq> [] \<or> q \<noteq> [] \<Longrightarrow>
         \<forall>j. (acc = [] \<longrightarrow> 1 \<le> j) \<and> j < length q \<longrightarrow>
             \<not> ((q @ [CHR ''-'']) ! j = CHR ''-'' \<and> is_digit ((q @ [CHR ''-'']) ! Suc j)) \<Longrightarrow>
         R_VERSION_scan acc (q @ CHR ''-'' # d # r) = Some (acc @ q, d # r)"
proof (induction q arbitrary: acc)
  case Nil
  then show ?case using version_tail_no_space[OF assms] by simp
next
  case (Cons x q)
  let ?cs = "q @ CHR ''-'' # d # r"
  have no_split: "\<not> (acc \<noteq> [] \<and> x = CHR ''-'' \<and> version_tail ?cs \<noteq> None)"
  proof
    assume a: "acc \<noteq> [] \<and> x = CHR ''-'' \<and> version_tail ?cs \<noteq> None"
    then have "is_digit (hd ?cs)" using version_tail_digit by blast
    moreover have "hd ?cs = ((x # q) @ [CHR ''-'']) ! Suc 0" by (cases q) auto
    moreover have "((x # q) @ [CHR ''-'']) ! 0 = CHR ''-''" using a by simp
    ultimately show False using Cons.prems(3)[rule_format, of 0] a by simp
  qed
  have sp: "\<not> is_space x" using Cons.prems(1) by simp
  have "R_VERSION_scan (acc @ [x]) ?cs = Some ((acc @ [x]) @ q, d # r)"
  proof (rule Cons.IH)
    show "\<forall>c\<in>set q. \<not> is_space c" using Cons.prems(1) by simp
    show "acc @ [x] \<noteq> [] \<or> q \<noteq> []" by simp
    show "\<forall>j. (acc @ [x] = [] \<longrightarrow> 1 \<le> j) \<and> j < length q \<longrightarrow>
             \<not> ((q @ [CHR ''-'']) ! j = CHR ''-'' \<and> is_digit ((q @ [CHR ''-'']) ! Suc j))"
    proof (intro allI impI)
      fix j assume "(acc @ [x] = [] \<longrightarrow> 1 \<le> j) \<and> j < length q"
      then have "j < length q" by simp
      with Cons.prems(3)[rule_format, of "Suc j"] show
        "\<not> ((q @ [CHR ''-'']) ! j = CHR ''-'' \<and> is_digit ((q @ [CHR ''-'']) ! Suc j))"
        by simp
    qed
  qed
  with no_split sp show ?case by simp
qed

lemma R_VERSION_scan_none:
  "\<forall>j. (acc = [] \<longrightarrow> 1 \<le> j) \<and> Suc j < length cs \<longrightarrow> \<not> (cs ! j = CHR ''-'' \<and> is_digit (cs ! Suc j))
   \<Longrightarrow> R_VERSION_scan acc cs = None"
proof (induction cs arbitrary: acc)
  case Nil
  then show ?case by simp
next
  case (Cons x cs)
  have no_split: "\<not> (acc \<noteq> [] \<and> x = CHR ''-'' \<and> version_tail cs \<noteq> None)"
  proof
    assume a: "acc \<noteq> [] \<and> x = CHR ''-'' \<and> version_tail cs \<noteq> None"
    then have "cs \<noteq> [] \<and> is_digit (hd cs)" using version_tail_digit by blast
    then have "Suc 0 < length (x # cs)" and "is_digit ((x # cs) ! Suc 0)"
      by (auto simp: hd_conv_nth)
    with Cons.prems[rule_format, of 0] a show False by simp
  qed
  have "R_VERSION_scan (acc @ [x]) cs = None"
  proof (rule Cons.IH, intro allI impI)
    fix j assume "(acc @ [x] = [] \<longrightarrow> 1 \<le> j) \<and> Suc j < length cs"
    then have "Suc (Suc j) < length (x # cs)" by simp
    with Cons.prems[rule_format, of "Suc j"] show "\<not> (cs ! j = CHR ''-'' \<and> is_digit (cs ! Suc j))"
      by simp
  qed
  with no_split show ?case by simp
qed

lemma R_VERSION_match_first:
  assumes i: "1 \<le> i" "i + 1 < length f" and dash: "f ! i = CHR ''-''" and dig: "is_digit (f ! (i + 1))"
    and first: "\<forall>j\<in>{1..<i}. \<not> (f ! j = CHR ''-'' \<and> is_digit (f ! (j + 1)))"
    and nsp: "\<forall>c\<in>set f. \<not> is_space c"
  shows "R_VERSION_match f = Some (take i f, drop (i + 1) f)"
proof -
  let ?q = "take i f" and ?d = "f ! (i + 1)" and ?r = "drop (i + 2) f"
  have f: "f = ?q @ CHR ''-'' # ?d # ?r"
  proof -
    have "f = take i f @ drop i f" by simp
    also have "drop i f = f ! i # drop (Suc i) f" using i by (simp add: Cons_nth_drop_Suc)
    also have "drop (Suc i) f = f ! Suc i # drop (Suc (Suc i)) f"
      using i by (simp add: Cons_nth_drop_Suc)
    finally show ?thesis using dash by simp
  qed
  have d: "drop (i + 1) f = ?d # ?r" using i by (simp add: Cons_nth_drop_Suc)
  have qs: "set ?q \<subseteq> set f" by (rule set_take_subset)
  have rs: "set ?r \<subseteq> set f" by (rule set_drop_subset)
  have "R_VERSION_scan [] (?q @ CHR ''-'' # ?d # ?r) = Some ([] @ ?q, ?d # ?r)"
  proof (rule R_VERSION_scan_first)
    show "is_digit ?d" by (rule dig)
    show "\<forall>c\<in>set ?r. \<not> is_space c" using nsp rs by blast
    show "\<forall>c\<in>set ?q. \<not> is_space c" using nsp qs by blast
    show "[] \<noteq> [] \<or> ?q \<noteq> []" using i by auto
    show "\<forall>j. (([]::string) = [] \<longrightarrow> 1 \<le> j) \<and> j < length ?q \<longrightarrow>
            \<not> ((?q @ [CHR ''-'']) ! j = CHR ''-'' \<and> is_digit ((?q @ [CHR ''-'']) ! Suc j))"
    proof (intro allI impI)
      fix j assume a: "(([]::string) = [] \<longrightarrow> 1 \<le> j) \<and> j < length ?q"
      then have j: "1 \<le> j" "j < i" using i by auto
      have qj: "(?q @ [CHR ''-'']) ! j = f ! j" using j i by (simp add: nth_append)
      show "\<not> ((?q @ [CHR ''-'']) ! j = CHR ''-'' \<and> is_digit ((?q @ [CHR ''-'']) ! Suc j))"
      proof (cases "Suc j < i")
        case True
        then have "(?q @ [CHR ''-'']) ! Suc j = f ! (j + 1)" using i by (simp add: nth_append)
        with qj first j show ?thesis by auto
      next
        case False
        with j have "Suc j = i" by simp
        then have "(?q @ [CHR ''-'']) ! Suc j = CHR ''-''" using i by (simp add: nth_append)
        then show ?thesis by (simp add: is_digit_def code_def)
      qed
    qed
  qed
  with f d show ?thesis by (simp add: R_VERSION_match_def)
qed

lemma R_VERSION_match_none:
  assumes "\<forall>i\<in>{1..<length f - 1}. \<not> (f ! i = CHR ''-'' \<and> is_digit (f ! (i + 1)))"
  shows "R_VERSION_match f = None"
  unfolding R_VERSION_match_def
proof (rule R_VERSION_scan_none, intro allI impI)
  fix j assume "(([]::string) = [] \<longrightarrow> 1 \<le> j) \<and> Suc j < length f"
  then have "j \<in> {1..<length f - 1}" by auto
  with assms show "\<not> (f ! j = CHR ''-'' \<and> is_digit (f ! Suc j))" by auto
qed

lemma Derive_init_no_version:
  assumes "Derive_name json_loads name_arg envVars = Inr s" and "snd (split_name s) = None"
  shows "Derive_init json_loads name_arg envVars patches_arg = Inl SkipDrv"
  using assms by (cases "split_name s") (simp add: Derive_init_def)

text \<open>
  C3, as stated, fails at three kinds of names. In \<open>-1-2\<close> the first dash that is
  followed by a digit is the first character, and \<open>split_name\<close> splits at the second
  dash, since the product name is never empty. In \<open>a b-1\<close> there is such a dash, and
  \<open>split_name\<close> finds no version, since the name holds white space. In \<open>foo-1.0.drv\<close>
  the version is \<open>1.0\<close>, the suffix \<open>.drv\<close> being cut off before the split.
\<close>

theorem split_name_counterexample:
  "split_name_spec ''-1-2'' = ([], Some ''1-2'') \<and> split_name ''-1-2'' = (''-1'', Some ''2'')
   \<and> split_name_spec ''a b-1'' = (''a b'', Some ''1'') \<and> split_name ''a b-1'' = (''a b-1'', None)
   \<and> split_name_spec ''foo-1.0.drv'' = (''foo'', Some ''1.0.drv'')
   \<and> split_name ''foo-1.0.drv'' = (''foo'', Some ''1.0'')"
  by code_simp

text \<open>
  C3, amended. \<open>split_name\<close> lower-cases its input and cuts off a final \<open>.drv\<close>; let
  \<open>f\<close> be the result. If \<open>f\<close> holds no white space, it is split at the first \<open>-\<close> that
  stands at a position from 1 on and is followed by a digit: \<open>(f[:i], f[i+1:])\<close>; so
  \<open>foo-1.2.3\<close> gives \<open>(foo, 1.2.3)\<close> and \<open>Foo-1.0\<close> gives \<open>(foo, 1.0)\<close>. If \<open>f\<close> has no
  such dash, as \<open>nameonly\<close>, \<open>split_name\<close> returns no version and \<open>Derive\<close> raises
  \<open>SkipDrv\<close>.
\<close>

theorem split_name_rule:
  assumes "f = (if endswith (lower s) ''.drv'' then take (length (lower s) - 4) (lower s)
                else lower s)"
  shows "split_name ''foo-1.2.3'' = (''foo'', Some ''1.2.3'')
     \<and> split_name ''Foo-1.0'' = (''foo'', Some ''1.0'')
     \<and> (\<forall>i. 1 \<le> i \<and> i + 1 < length f \<and> f ! i = CHR ''-'' \<and> is_digit (f ! (i + 1))
            \<and> (\<forall>j\<in>{1..<i}. \<not> (f ! j = CHR ''-'' \<and> is_digit (f ! (j + 1))))
            \<and> (\<forall>c\<in>set f. \<not> is_space c)
          \<longrightarrow> split_name s = (take i f, Some (drop (i + 1) f)))
     \<and> ((\<forall>i\<in>{1..<length f - 1}. \<not> (f ! i = CHR ''-'' \<and> is_digit (f ! (i + 1))))
          \<longrightarrow> split_name s = (f, None)
              \<and> (Derive_name json_loads name_arg envVars = Inr s
                   \<longrightarrow> Derive_init json_loads name_arg envVars patches_arg = Inl SkipDrv))"
proof (intro conjI allI impI)
  show "split_name ''foo-1.2.3'' = (''foo'', Some ''1.2.3'')" by code_simp
  show "split_name ''Foo-1.0'' = (''foo'', Some ''1.0'')" by code_simp
next
  fix i
  assume "1 \<le> i \<and> i + 1 < length f \<and> f ! i = CHR ''-'' \<and> is_digit (f ! (i + 1))
            \<and> (\<forall>j\<in>{1..<i}. \<not> (f ! j = CHR ''-'' \<and> is_digit (f ! (j + 1))))
            \<and> (\<forall>c\<in>set f. \<not> is_space c)"
  then have "R_VERSION_match f = Some (take i f, drop (i + 1) f)"
    by (intro R_VERSION_match_first) auto
  then show "split_name s = (take i f, Some (drop (i + 1) f))"
    using assms by (simp add: split_name_def Let_def)
next
  assume "\<forall>i\<in>{1..<length f - 1}. \<not> (f ! i = CHR ''-'' \<and> is_digit (f ! (i + 1)))"
  then have "R_VERSION_match f = None" by (rule R_VERSION_match_none)
  then show n: "split_name s = (f, None)"
    using assms by (simp add: split_name_def Let_def)
  assume "Derive_name json_loads name_arg envVars = Inr s"
  then show "Derive_init json_loads name_arg envVars patches_arg = Inl SkipDrv"
    using n by (intro Derive_init_no_version) auto
qed

theorem split_name_rule_witness:
  "split_name ''Foo-Bar-1.0-2.drv'' = (''foo-bar'', Some ''1.0-2'')
   \<and> split_name ''nameonly'' = (''nameonly'', None)
   \<and> Derive_name no_json (Some ''nameonly'') [] = Inr ''nameonly''
   \<and> Derive_init no_json (Some ''nameonly'') [] None = Inl SkipDrv"
proof -
  have f1: "''foo-bar-1.0-2'' =
      (if endswith (lower ''Foo-Bar-1.0-2.drv'') ''.drv''
       then take (length (lower ''Foo-Bar-1.0-2.drv'') - 4) (lower ''Foo-Bar-1.0-2.drv'')
       else lower ''Foo-Bar-1.0-2.drv'')"
    by code_simp
  have h1: "1 \<le> (7::nat) \<and> 7 + 1 < length ''foo-bar-1.0-2'' \<and> ''foo-bar-1.0-2'' ! 7 = CHR ''-''
      \<and> is_digit (''foo-bar-1.0-2'' ! (7 + 1))
      \<and> (\<forall>j\<in>{1..<7}. \<not> (''foo-bar-1.0-2'' ! j = CHR ''-'' \<and> is_digit (''foo-bar-1.0-2'' ! (j + 1))))
      \<and> (\<forall>c\<in>set ''foo-bar-1.0-2''. \<not> is_space c)"
    by code_simp
  have t1: "take 7 ''foo-bar-1.0-2'' = ''foo-bar''" "drop (7 + 1) ''foo-bar-1.0-2'' = ''1.0-2''"
    by code_simp+
  have f2: "''nameonly'' =
      (if endswith (lower ''nameonly'') ''.drv''
       then take (length (lower ''nameonly'') - 4) (lower ''nameonly'') else lower ''nameonly'')"
    by code_simp
  have h2: "\<forall>i\<in>{1..<length ''nameonly'' - 1}.
      \<not> (''nameonly'' ! i = CHR ''-'' \<and> is_digit (''nameonly'' ! (i + 1)))"
    by code_simp
  have n2: "Derive_name no_json (Some ''nameonly'') [] = Inr ''nameonly''"
    by code_simp
  from split_name_rule [OF f1] h1 t1
  have "split_name ''Foo-Bar-1.0-2.drv'' = (''foo-bar'', Some ''1.0-2'')" by metis
  moreover from split_name_rule [OF f2, of no_json "Some ''nameonly''" "[]" None] h2 n2
  have "split_name ''nameonly'' = (''nameonly'', None)
        \<and> Derive_init no_json (Some ''nameonly'') [] None = Inl SkipDrv" by blast
  ultimately show ?thesis using n2 by blast
qed

subsection \<open>Skipped descriptors\<close>

text \<open>
  C4, as stated, fails: the extension is looked for in the name as given, before any
  lower-casing or cutting of \<open>.drv\<close>. \<open>foo-1.0.TAR.GZ\<close> and \<open>foo-1.0.tar.gz.drv\<close> end
  with \<open>.tar.gz\<close> after both steps, and both are resolved, not skipped.
\<close>

theorem Derive_init_extension_counterexample:
  "endswith (lower ''foo-1.0.TAR.GZ'') ''.tar.gz''
   \<and> Derive_init no_json (Some ''foo-1.0.TAR.GZ'') [] None =
       Inr \<lparr> name = ''foo-1.0.TAR.GZ'', pname = ''foo'', version = ''1.0.tar.gz'', patches = [] \<rparr>
   \<and> endswith (lower ''foo-1.0.tar.gz.drv'') ''.drv''
   \<and> endswith (take (length (lower ''foo-1.0.tar.gz.drv'') - 4) (lower ''foo-1.0.tar.gz.drv''))
        ''.tar.gz''
   \<and> Derive_init no_json (Some ''foo-1.0.tar.gz.drv'') [] None =
       Inr \<lparr> name = ''foo-1.0.tar.gz.drv'', pname = ''foo'', version = ''1.0.tar.gz'',
             patches = [] \<rparr>"
  by code_simp

text \<open>
  C4, amended. A descriptor whose name, exactly as given, ends with one of
  \<open>.tar.gz\<close>, \<open>.tar.bz2\<close>, \<open>.tar.xz\<close>, \<open>.zip\<close>, \<open>.patch\<close>, \<open>.diff\<close> is skipped:
  \<open>Derive\<close> raises \<open>SkipDrv\<close>.
\<close>

theorem Derive_init_skips_extension:
  assumes "Derive_name json_loads name_arg envVars = Inr n"
    and "e \<in> set [''.tar.gz'', ''.tar.bz2'', ''.tar.xz'', ''.zip'', ''.patch'', ''.diff'']"
    and "endswith n e"
  shows "Derive_init json_loads name_arg envVars patches_arg = Inl SkipDrv"
proof -
  from assms(2,3) have "list_ex (endswith n) skip_extensions"
    unfolding list_ex_iff skip_extensions_def by blast
  with assms(1) show ?thesis by (simp add: Derive_init_def)
qed

theorem Derive_init_skips_extension_witness:
  "Derive_name no_json None [(''name'', ''foo-1.0.tar.gz'')] = Inr ''foo-1.0.tar.gz''
   \<and> endswith ''foo-1.0.tar.gz'' ''.tar.gz''
   \<and> split_name ''foo-1.0.tar.gz'' = (''foo'', Some ''1.0.tar.gz'')
   \<and> Derive_init no_json None [(''name'', ''foo-1.0.tar.gz'')] None = Inl SkipDrv"
proof -
  have 1: "Derive_name no_json None [(''name'', ''foo-1.0.tar.gz'')] = Inr ''foo-1.0.tar.gz''"
    by code_simp
  have 2: "''.tar.gz'' \<in> set [''.tar.gz'', ''.tar.bz2'', ''.tar.xz'', ''.zip'', ''.patch'', ''.diff'']"
    by simp
  have 3: "endswith ''foo-1.0.tar.gz'' ''.tar.gz''" by code_simp
  have 4: "split_name ''foo-1.0.tar.gz'' = (''foo'', Some ''1.0.tar.gz'')" by code_simp
  from Derive_init_skips_extension [OF 1 2 3] 1 3 4 show ?thesis by blast
qed

subsection \<open>The order of \<open>Derive\<close> objects\<close>

text \<open>
  C5. \<open>__gt__\<close> answers \<open>True\<close> also when \<open>self.pname\<close> is the smaller name, where
  \<open>__lt__\<close> answers \<open>True\<close> as well: for the identities of \<open>a-1\<close> and \<open>b-1\<close> both
  \<open>a < b\<close> and \<open>a > b\<close> hold, whatever the version comparator is.
\<close>

theorem Derive_gt_contradicts_lt:
  "Derive_init no_json (Some ''a-1'') [] None = Inr drv_a
   \<and> Derive_init no_json (Some ''b-1'') [] None = Inr drv_b
   \<and> Derive_lt compare_versions drv_a drv_b \<and> Derive_gt compare_versions drv_a drv_b"
proof -
  have "Derive_init no_json (Some ''a-1'') [] None = Inr drv_a" by code_simp
  moreover have "Derive_init no_json (Some ''b-1'') [] None = Inr drv_b" by code_simp
  moreover have "pname drv_a < pname drv_b" by (simp add: drv_a_def drv_b_def)
  ultimately show ?thesis by (simp add: Derive_lt_def Derive_gt_def)
qed

subsection \<open>The store and its index\<close>

lemma map_of_btree_set: "map_of (btree_set k v t) = (map_of t)(k \<mapsto> v)"
  by (induction t) auto

lemma keys_btree_set: "set (map fst (btree_set k v t)) = insert k (set (map fst t))"
  by (induction k v t rule: btree_set.induct) (simp_all add: insert_commute)

lemma sorted_btree_set:
  "sorted_wrt (<) (map fst t) \<Longrightarrow> sorted_wrt (<) (map fst (btree_set k v t))"
proof (induction t)
  case Nil
  then show ?case by simp
next
  case (Cons kv t)
  obtain k' v' where kv: "kv = (k', v')" by (cases kv)
  show ?case
  proof (cases "k = k'")
    case True
    with Cons.prems kv show ?thesis by simp
  next
    case False
    show ?thesis
    proof (cases "k < k'")
      case True
      with Cons.prems kv False show ?thesis by (auto intro: less_trans)
    next
      case gt: False
      with False have "k' < k" by simp
      moreover have "sorted_wrt (<) (map fst (btree_set k v t))"
        using Cons by simp
      moreover have "set (map fst (btree_set k v t)) = insert k (set (map fst t))"
        by (rule keys_btree_set)
      ultimately show ?thesis using Cons.prems kv False gt by auto
    qed
  qed
qed

lemma sorted_keys_count:
  fixes t :: "(string \<times> 'v) list"
  shows "sorted_wrt (<) (map fst t) \<Longrightarrow> map_of t k = Some v \<Longrightarrow>
   length (filter (\<lambda>kv. fst kv = k) t) = 1"
proof (induction t)
  case Nil
  then show ?case by simp
next
  case (Cons kv t)
  show ?case
  proof (cases "fst kv = k")
    case True
    from Cons.prems(1) have "\<forall>x\<in>set t. fst kv < fst x" by simp
    with True have "\<forall>x\<in>set t. fst x \<noteq> k" by (metis less_irrefl)
    then have "filter (\<lambda>kv. fst kv = k) t = []"
      by (simp add: filter_empty_conv)
    with True show ?thesis by simp
  next
    case False
    with Cons show ?thesis by (cases kv) (auto split: if_splits)
  qed
qed

lemma sorted_NVD_add:
  "sorted_wrt (<) (map fst (advisory root)) \<Longrightarrow>
   sorted_wrt (<) (map fst (advisory (NVD_add items root)))"
proof -
  have "sorted_wrt (<) (map fst t) \<Longrightarrow>
        sorted_wrt (<) (map fst (fold (\<lambda>(cve_id, adv) advisories. btree_set cve_id adv advisories)
                                      items t))"
    for t :: "(string \<times> 'a Vulnerability) list"
    by (induction items arbitrary: t) (auto simp: sorted_btree_set)
  then show "sorted_wrt (<) (map fst (advisory root)) \<Longrightarrow>
   sorted_wrt (<) (map fst (advisory (NVD_add items root)))"
    by (simp add: NVD_add_def)
qed

lemma map_of_NVD_add:
  "map_of (advisory (NVD_add items root)) = map_of (advisory root) ++ map_of (rev items)"
proof -
  have "map_of (fold (\<lambda>(cve_id, adv) advisories. btree_set cve_id adv advisories) items t)
        = map_of t ++ map_of (rev items)"
    for t :: "(string \<times> 'a Vulnerability) list"
  proof (induction items arbitrary: t)
    case Nil
    then show ?case by simp
  next
    case (Cons kv items)
    obtain k v where kv: "kv = (k, v)" by (cases kv)
    have "map_of (fold (\<lambda>(cve_id, adv) advisories. btree_set cve_id adv advisories) (kv # items) t)
          = map_of (btree_set k v t) ++ map_of (rev items)"
      unfolding kv by (simp add: Cons.IH)
    also have "map_of (btree_set k v t) = map_of t ++ [k \<mapsto> v]"
      by (simp add: map_of_btree_set)
    also have "(map_of t ++ [k \<mapsto> v]) ++ map_of (rev items)
               = map_of t ++ ([k \<mapsto> v] ++ map_of (rev items))"
      by (rule map_add_assoc[symmetric])
    also have "[k \<mapsto> v] ++ map_of (rev items) = map_of (rev (kv # items))"
      unfolding kv by (simp only: rev.simps map_of_append map_of.simps fst_conv snd_conv)
    finally show ?case .
  qed
  then show ?thesis by (simp add: NVD_add_def)
qed

lemma index_append_lookup:
  "(case map_of (index_append v q bp) p of None \<Rightarrow> [] | Some vs \<Rightarrow> vs) =
   (case map_of bp p of None \<Rightarrow> [] | Some vs \<Rightarrow> vs) @ (if q = p then [v] else [])"
  by (auto simp: index_append_def Let_def map_of_btree_set split: option.splits)

lemma fold_index_append_lookup:
  "(case map_of (fold (index_append v) qs bp) p of None \<Rightarrow> [] | Some vs \<Rightarrow> vs) =
   (case map_of bp p of None \<Rightarrow> [] | Some vs \<Rightarrow> vs) @ replicate (length (filter (\<lambda>q. q = p) qs)) v"
proof (induction qs arbitrary: bp)
  case Nil
  then show ?case by simp
next
  case (Cons q qs)
  show ?case
    by (simp add: Cons.IH index_append_lookup replicate_app_Cons_same)
qed

lemma reindex_fold_lookup:
  "(case map_of (fold (\<lambda>vuln bp. fold (index_append vuln) (map product (nodes vuln)) bp) vs bp) p
      of None \<Rightarrow> [] | Some l \<Rightarrow> l) =
   (case map_of bp p of None \<Rightarrow> [] | Some l \<Rightarrow> l)
     @ concat (map (\<lambda>v. replicate (length (filter (\<lambda>n. product n = p) (nodes v))) v) vs)"
proof (induction vs arbitrary: bp)
  case Nil
  then show ?case by simp
next
  case (Cons v vs)
  have "length (filter (\<lambda>q. q = p) (map product (nodes v)))
        = length (filter (\<lambda>n. product n = p) (nodes v))"
    by (simp add: filter_map o_def)
  then show ?case by (simp add: Cons.IH fold_index_append_lookup)
qed

lemma by_product_reindex:
  "NVD_by_product (NVD_reindex root) p =
   concat (map (\<lambda>v. replicate (length (filter (\<lambda>n. product n = p) (nodes v))) v)
               (map snd (advisory root)))"
  using reindex_fold_lookup[of "map snd (advisory root)" "[]" p]
  by (simp add: NVD_by_product_def NVD_reindex_def)

lemma set_concat_replicate:
  "set (concat (map (\<lambda>v. replicate (f v) v) vs)) = {v \<in> set vs. 0 < f v}"
  by (induction vs) auto

lemma set_by_product_reindex:
  "set (NVD_by_product (NVD_reindex root) p) =
   {v \<in> set (map snd (advisory root)). p \<in> set (map product (nodes v))}"
proof -
  have "(0 < length (filter (\<lambda>n. product n = p) ns)) = (p \<in> set (map product ns))"
    for ns :: "'a node list"
    by (induction ns) auto
  then show ?thesis
    unfolding by_product_reindex set_concat_replicate by simp
qed

lemma advisory_reindex: "advisory (NVD_reindex root) = advisory root"
  by (simp add: NVD_reindex_def)

text \<open>
  C8, as stated, fails in its last words: the index lists a record once for every node
  that names the product. After \<open>CVE-2021-1234\<close> is ingested twice, the later record
  naming \<open>foo\<close> in two nodes, the rebuilt index holds that record twice under \<open>foo\<close>.
\<close>

theorem reindex_duplicate_counterexample:
  "cve_id cve_1234_old = cve_id cve_1234
   \<and> NVD_by_product
        (NVD_reindex (NVD_add [(cve_id cve_1234, cve_1234)]
                        (NVD_add [(cve_id cve_1234_old, cve_1234_old)] Root_init))) ''foo''
       = [cve_1234, cve_1234]"
  by code_simp

text \<open>
  C8, amended. In a store whose keys are in ascending order, as an \<open>OOBTree\<close> keeps
  them, ingesting two records with the same \<open>cve_id\<close> one after the other leaves exactly
  one record under that id, the later one. After the index rebuild, the entry of each
  product holds exactly the stored records that name the product in some node, none
  of them stale, each as often as it has nodes that name the product.
\<close>

theorem add_twice_then_reindex:
  assumes "sorted_wrt (<) (map fst (advisory root))" and "cve_id a = cve_id b"
  shows "NVD_by_id (NVD_add [(cve_id b, b)] (NVD_add [(cve_id a, a)] root)) (cve_id b) = Inr b
     \<and> length (filter (\<lambda>kv. fst kv = cve_id b)
                 (advisory (NVD_add [(cve_id b, b)] (NVD_add [(cve_id a, a)] root)))) = 1
     \<and> set (NVD_by_product
              (NVD_reindex (NVD_add [(cve_id b, b)] (NVD_add [(cve_id a, a)] root))) p)
         = {v \<in> set (map snd (advisory (NVD_add [(cve_id b, b)] (NVD_add [(cve_id a, a)] root)))).
             p \<in> set (map product (nodes v))}
     \<and> NVD_by_product
          (NVD_reindex (NVD_add [(cve_id b, b)] (NVD_add [(cve_id a, a)] root))) p
         = concat (map (\<lambda>v. replicate (length (filter (\<lambda>n. product n = p) (nodes v))) v)
                       (map snd (advisory (NVD_add [(cve_id b, b)]
                                            (NVD_add [(cve_id a, a)] root)))))"
proof -
  let ?r = "NVD_add [(cve_id b, b)] (NVD_add [(cve_id a, a)] root)"
  have m: "map_of (advisory ?r) (cve_id b) = Some b"
    by (simp add: map_of_NVD_add)
  have s: "sorted_wrt (<) (map fst (advisory ?r))"
    using assms(1) by (intro sorted_NVD_add)
  have 1: "NVD_by_id ?r (cve_id b) = Inr b"
    using m by (simp add: NVD_by_id_def)
  have 2: "length (filter (\<lambda>kv. fst kv = cve_id b) (advisory ?r)) = 1"
    using s m by (rule sorted_keys_count)
  show ?thesis
    using 1 2 set_by_product_reindex[of ?r p] by_product_reindex[of ?r p] by simp
qed

theorem add_twice_then_reindex_witness:
  "sorted_wrt (<) (map fst (advisory sample_root))
   \<and> cve_id cve_1234 = cve_id cve_1234_old
   \<and> map_of (advisory sample_root) (cve_id cve_1234) = Some cve_1234
   \<and> NVD_by_id (NVD_add [(cve_id cve_1234_old, cve_1234_old)]
                  (NVD_add [(cve_id cve_1234, cve_1234)] sample_root)) (cve_id cve_1234_old)
       = Inr cve_1234_old
   \<and> NVD_by_product
        (NVD_reindex (NVD_add [(cve_id cve_1234_old, cve_1234_old)]
                        (NVD_add [(cve_id cve_1234, cve_1234)] sample_root))) ''foo''
       = [cve_77]
   \<and> NVD_by_product
        (NVD_reindex (NVD_add [(cve_id cve_1234_old, cve_1234_old)]
                        (NVD_add [(cve_id cve_1234, cve_1234)] sample_root))) ''bar''
       = [cve_1234_old]"
proof -
  have 1: "sorted_wrt (<) (map fst (advisory sample_root))" by code_simp
  have 2: "cve_id cve_1234 = cve_id cve_1234_old" by code_simp
  have 3: "map_of (advisory sample_root) (cve_id cve_1234) = Some cve_1234" by code_simp
  have 4: "NVD_by_product
        (NVD_reindex (NVD_add [(cve_id cve_1234_old, cve_1234_old)]
                        (NVD_add [(cve_id cve_1234, cve_1234)] sample_root))) ''foo''
       = [cve_77]" by code_simp
  have 5: "NVD_by_product
        (NVD_reindex (NVD_add [(cve_id cve_1234_old, cve_1234_old)]
                        (NVD_add [(cve_id cve_1234, cve_1234)] sample_root))) ''bar''
       = [cve_1234_old]" by code_simp
  from add_twice_then_reindex [OF 1 2, of "''foo''"]
  have "NVD_by_id (NVD_add [(cve_id cve_1234_old, cve_1234_old)]
                  (NVD_add [(cve_id cve_1234, cve_1234)] sample_root)) (cve_id cve_1234_old)
       = Inr cve_1234_old" by (rule conjunct1)
  with 1 2 3 4 5 show ?thesis by blast
qed

subsection \<open>Queries\<close>

lemma distinct_NVD_affected: "distinct (NVD_affected vmatch root pn ver)"
proof -
  have "distinct acc \<Longrightarrow>
        distinct (fold (\<lambda>vuln res. if vmatch vuln pn ver then List.insert vuln res else res) vs acc)"
    for vs acc
    by (induction vs arbitrary: acc) auto
  then show ?thesis by (simp add: NVD_affected_def)
qed

lemma set_NVD_affected:
  "set (NVD_affected vmatch root pn ver) = {v \<in> set (NVD_by_product root pn). vmatch v pn ver}"
proof -
  have "set (fold (\<lambda>vuln res. if vmatch vuln pn ver then List.insert vuln res else res) vs acc)
        = set acc \<union> {v \<in> set vs. vmatch v pn ver}"
    for vs acc
    by (induction vs arbitrary: acc) auto
  then show ?thesis by (simp add: NVD_affected_def)
qed

text \<open>
  C10. The result of \<open>affected\<close> holds every record at most once: it is the set of the
  records of the by-product lookup that match. The lookup itself returns the empty list
  for a product that is not in the index, and after a rebuild of the index it returns a
  stored record more than once whenever two of the record's nodes name the product.
\<close>

theorem affected_at_most_once:
  "distinct (NVD_affected vmatch root pn ver)
   \<and> set (NVD_affected vmatch root pn ver) = {v \<in> set (NVD_by_product root pn). vmatch v pn ver}
   \<and> (pn \<notin> set (map fst (by_product root)) \<longrightarrow> NVD_by_product root pn = [])
   \<and> (v \<in> set (map snd (advisory root)) \<and> 2 \<le> length (filter (\<lambda>n. product n = pn) (nodes v))
        \<longrightarrow> \<not> distinct (NVD_by_product (NVD_reindex root) pn))"
proof (intro conjI impI)
  show "distinct (NVD_affected vmatch root pn ver)" by (rule distinct_NVD_affected)
  show "set (NVD_affected vmatch root pn ver) = {v \<in> set (NVD_by_product root pn). vmatch v pn ver}"
    by (rule set_NVD_affected)
next
  assume "pn \<notin> set (map fst (by_product root))"
  then have "map_of (by_product root) pn = None" by (simp add: map_of_eq_None_iff)
  then show "NVD_by_product root pn = []" by (simp add: NVD_by_product_def)
next
  assume a: "v \<in> set (map snd (advisory root)) \<and> 2 \<le> length (filter (\<lambda>n. product n = pn) (nodes v))"
  let ?f = "\<lambda>v. replicate (length (filter (\<lambda>n. product n = pn) (nodes v))) v"
  from a obtain xs ys where vs: "map snd (advisory root) = xs @ v # ys"
    by (auto simp: in_set_conv_decomp)
  from a have "Suc (Suc 0) \<le> length (filter (\<lambda>n. product n = pn) (nodes v))" by simp
  then obtain k where k: "length (filter (\<lambda>n. product n = pn) (nodes v)) = Suc (Suc k)"
    by (auto simp: Suc_le_eq dest!: less_imp_Suc_add)
  have "NVD_by_product (NVD_reindex root) pn
        = concat (map ?f xs) @ (v # v # replicate k v) @ concat (map ?f ys)"
    unfolding by_product_reindex vs by (simp add: k)
  then show "\<not> distinct (NVD_by_product (NVD_reindex root) pn)" by simp
qed

theorem affected_at_most_once_witness:
  "''nosuch'' \<notin> set (map fst (by_product sample_root))
   \<and> NVD_by_product sample_root ''nosuch'' = []
   \<and> NVD_affected sample_match sample_root ''nosuch'' ''1.0'' = []
   \<and> cve_1234 \<in> set (map snd (advisory Root_init_1234))
   \<and> 2 \<le> length (filter (\<lambda>n. product n = ''foo'') (nodes cve_1234))
   \<and> NVD_by_product (NVD_reindex Root_init_1234) ''foo'' = [cve_1234, cve_1234]
   \<and> \<not> distinct (NVD_by_product (NVD_reindex Root_init_1234) ''foo'')
   \<and> NVD_affected sample_match (NVD_reindex Root_init_1234) ''foo'' ''1.0'' = [cve_1234]"
proof -
  have 1: "''nosuch'' \<notin> set (map fst (by_product sample_root))" by code_simp
  have 2: "cve_1234 \<in> set (map snd (advisory Root_init_1234))
           \<and> 2 \<le> length (filter (\<lambda>n. product n = ''foo'') (nodes cve_1234))" by code_simp
  have 3: "NVD_affected sample_match sample_root ''nosuch'' ''1.0'' = []" by code_simp
  have 4: "NVD_by_product (NVD_reindex Root_init_1234) ''foo'' = [cve_1234, cve_1234]" by code_simp
  have 5: "NVD_affected sample_match (NVD_reindex Root_init_1234) ''foo'' ''1.0'' = [cve_1234]"
    by code_simp
  from affected_at_most_once [of sample_match sample_root "''nosuch''" "''1.0''" cve_1234]
    affected_at_most_once [of sample_match Root_init_1234 "''foo''" "''1.0''" cve_1234]
  show ?thesis using 1 2 3 4 5 by blast
qed

subsection \<open>Compaction\<close>

lemma should_pack_eq:
  "should_pack m =
     (25 \<le> pack_counter m,
      m \<lparr> pack_counter := (if 25 \<le> pack_counter m then 0 else pack_counter m + 1) \<rparr>)"
  by (simp add: should_pack_def Let_def)

lemma pack_counter_after_sessions:
  "pack_counter (meta root) = 0 \<Longrightarrow> pack_counter (meta (after_sessions n root)) = n mod 26"
proof (induction n)
  case 0
  then show ?case by simp
next
  case (Suc n)
  have "pack_counter (meta (after_sessions (Suc n) root))
        = (if 25 \<le> pack_counter (meta (after_sessions n root)) then 0
           else pack_counter (meta (after_sessions n root)) + 1)"
    by (simp add: clean_session_def NVD_exit_def should_pack_eq)
  also have "\<dots> = (if 25 \<le> n mod 26 then 0 else n mod 26 + 1)"
    by (simp only: Suc)
  also have "\<dots> = Suc n mod 26"
    using mod_less_divisor[of 26 n] by (auto simp: mod_Suc)
  finally show ?case .
qed

text \<open>
  C9, as stated, fails: counting from a new store, the 25th clean session in a row does
  not compact, the 26th does.
\<close>

theorem pack_every_25th_counterexample:
  "\<not> fst (clean_session (after_sessions 24 (Root_init :: unit Root)))
   \<and> fst (clean_session (after_sessions 25 (Root_init :: unit Root)))"
  by code_simp

text \<open>
  C9, amended. The counter advances by one in every session that ends without an
  exception and in no other; compaction runs when the counter has passed the
  threshold 25, that is, counting from a store whose counter is 0, in every 26th clean
  session, and the counter then starts again at 0. Leaving a session changes nothing
  but the counter: the records by id and the records by product are the same before
  and after.
\<close>

theorem pack_every_26th:
  assumes "pack_counter (meta root) = 0"
  shows "NVD_exit True committed working =
     (25 \<le> pack_counter (meta working),
      working \<lparr> meta := (meta working)
        \<lparr> pack_counter := (if 25 \<le> pack_counter (meta working) then 0
                            else pack_counter (meta working) + 1) \<rparr> \<rparr>)
   \<and> NVD_exit False committed working = (False, committed)
   \<and> pack_counter (meta (after_sessions n root)) = n mod 26
   \<and> fst (clean_session (after_sessions n root)) = (Suc n mod 26 = 0)
   \<and> NVD_by_id (snd (NVD_exit True committed working)) = NVD_by_id working
   \<and> NVD_by_product (snd (NVD_exit True committed working)) = NVD_by_product working"
proof (intro conjI)
  show "NVD_exit True committed working =
     (25 \<le> pack_counter (meta working),
      working \<lparr> meta := (meta working)
        \<lparr> pack_counter := (if 25 \<le> pack_counter (meta working) then 0
                            else pack_counter (meta working) + 1) \<rparr> \<rparr>)"
    by (simp add: NVD_exit_def should_pack_eq)
  show "NVD_exit False committed working = (False, committed)"
    by (simp add: NVD_exit_def)
  show c: "pack_counter (meta (after_sessions n root)) = n mod 26"
    using assms by (rule pack_counter_after_sessions)
  have "fst (clean_session (after_sessions n root))
        = (25 \<le> pack_counter (meta (after_sessions n root)))"
    by (simp add: clean_session_def NVD_exit_def should_pack_eq)
  also have "\<dots> = (25 \<le> n mod 26)" by (simp only: c)
  also have "\<dots> = (Suc n mod 26 = 0)"
    using mod_less_divisor[of 26 n] by (auto simp: mod_Suc)
  finally show "fst (clean_session (after_sessions n root)) = (Suc n mod 26 = 0)" .
  show "NVD_by_id (snd (NVD_exit True committed working)) = NVD_by_id working"
    by (rule ext) (simp add: NVD_exit_def should_pack_eq NVD_by_id_def)
  show "NVD_by_product (snd (NVD_exit True committed working)) = NVD_by_product working"
    by (rule ext) (simp add: NVD_exit_def should_pack_eq NVD_by_product_def)
qed

theorem pack_every_26th_witness:
  "pack_counter (meta (Root_init :: unit Root)) = 0
   \<and> pack_counter (meta (after_sessions 25 (Root_init :: unit Root))) = 25
   \<and> fst (clean_session (after_sessions 25 (Root_init :: unit Root)))
   \<and> pack_counter (meta (after_sessions 26 (Root_init :: unit Root))) = 0"
proof -
  have 0: "pack_counter (meta (Root_init :: unit Root)) = 0"
    by (simp add: Root_init_def Meta_init_def)
  have a: "(25::nat) mod 26 = 25" "(Suc 25 mod 26 = 0) = True" "(26::nat) mod 26 = 0"
    by simp_all
  from pack_every_26th [OF 0, of _ _ 25] pack_every_26th [OF 0, of _ _ 26]
  show ?thesis using 0 unfolding a by blast
qed

subsection \<open>The sync\<close>

lemma Archive_download_raises:
  assumes "http_get w (mirror_url @ download_uri a) (headers_for metadata (mirror_url @ download_uri a))
             = res"
    and "res = Inl e \<or> (\<exists>r. res = Inr r \<and> 400 \<le> status_code r \<and> status_code r < 600
                              \<and> e = HTTPError)"
  shows "Archive_download w now mirror_url metadata a = Inl e"
  using assms by (auto simp: Archive_download_def Let_def)

lemma update_loop_append:
  "update_loop w now self pre fetched root = (fetched1, root1, None) \<Longrightarrow>
   update_loop w now self (pre @ rest) fetched root = update_loop w now self rest fetched1 root1"
proof (induction pre arbitrary: fetched root)
  case Nil
  then show ?case by simp
next
  case (Cons a pre)
  show ?case
  proof (cases "Archive_download w now (mirror self) (meta root) a")
    case (Inl e)
    with Cons.prems show ?thesis by simp
  next
    case (Inr res)
    obtain advisories metadata where res: "res = (advisories, metadata)" by (cases res)
    from Cons.prems Inr res
    have "update_loop w now self pre (fetched @ [mirror self @ download_uri a])
            (NVD_add advisories (root \<lparr> meta := metadata \<rparr>)) = (fetched1, root1, None)"
      by simp
    from Cons.IH[OF this] Inr res show ?thesis by simp
  qed
qed

text \<open>
  C6, as stated, fails: nothing in \<open>download\<close> or \<open>update\<close> catches the exception that
  \<open>raise_for_status\<close> or \<open>requests.get\<close> raises. With a store that is out of date and
  a server that answers 500 for the segment of 2016, \<open>update\<close> ends with the exception
  after two requests; the segments from 2017 on are never requested, and leaving the
  session with the exception drops also what the segment of 2015 brought.
\<close>

theorem update_fetch_failure_counterexample:
  "NVD_relevant_archives sample_nvd (days 18000) (Root_init :: string list Root)
     = [Year 2015, Year 2016, Year 2017, Year 2018, Year 2019, Year 2020, Modified]
   \<and> fst (NVD_update world_fail_2016 (days 18000) sample_nvd Root_init)
     = [''https://mirror/nvdcve-1.1-2015.json.gz'', ''https://mirror/nvdcve-1.1-2016.json.gz'']
   \<and> snd (snd (NVD_update world_fail_2016 (days 18000) sample_nvd Root_init)) = Some HTTPError
   \<and> NVD_exit False Root_init (fst (snd (NVD_update world_fail_2016 (days 18000) sample_nvd Root_init)))
     = (False, Root_init)"
  by code_simp

text \<open>
  C6, amended. When the fetch of one segment fails, because \<open>requests.get\<close> raises or
  because the status is from 400 to 599, the exception leaves \<open>update\<close>: no request
  is made for a later segment, the index is not rebuilt, and \<open>__exit__\<close> with the
  exception aborts the transaction, so that the committed store, every segment's
  records included, is the one from before the run.
\<close>

theorem update_fetch_failure:
  assumes "NVD_relevant_archives self now root = pre @ a # post"
    and "update_loop w now self pre [] root = (fetched, root1, None)"
    and "http_get w (mirror self @ download_uri a)
           (headers_for (meta root1) (mirror self @ download_uri a)) = res"
    and "res = Inl e \<or> (\<exists>r. res = Inr r \<and> 400 \<le> status_code r \<and> status_code r < 600
                              \<and> e = HTTPError)"
  shows "NVD_update w now self root = (fetched @ [mirror self @ download_uri a], root1, Some e)
     \<and> NVD_exit False root root1 = (False, root)"
proof -
  have d: "Archive_download w now (mirror self) (meta root1) a = Inl e"
    using assms(3,4) by (rule Archive_download_raises)
  have "update_loop w now self (pre @ a # post) [] root
        = update_loop w now self (a # post) fetched root1"
    using assms(2) by (rule update_loop_append)
  also have "\<dots> = (fetched @ [mirror self @ download_uri a], root1, Some e)"
    using d by simp
  finally show ?thesis
    using assms(1) by (simp add: NVD_update_def NVD_exit_def)
qed

theorem update_fetch_failure_witness:
  "NVD_relevant_archives sample_nvd (days 18000) (Root_init :: string list Root)
     = [Year 2015] @ Year 2016 # [Year 2017, Year 2018, Year 2019, Year 2020, Modified]
   \<and> snd (snd (update_loop world_fail_2016 (days 18000) sample_nvd [Year 2015] [] Root_init)) = None
   \<and> map_of (advisory (fst (snd (update_loop world_fail_2016 (days 18000) sample_nvd
                                     [Year 2015] [] Root_init)))) ''CVE-2021-77'' = Some cve_77
   \<and> NVD_update world_fail_2016 (days 18000) sample_nvd Root_init
       = ([''https://mirror/nvdcve-1.1-2015.json.gz'', ''https://mirror/nvdcve-1.1-2016.json.gz''],
          fst (snd (update_loop world_fail_2016 (days 18000) sample_nvd [Year 2015] [] Root_init)),
          Some HTTPError)
   \<and> NVD_exit False Root_init
         (fst (snd (update_loop world_fail_2016 (days 18000) sample_nvd [Year 2015] [] Root_init)))
       = (False, Root_init)"
proof -
  let ?l = "update_loop world_fail_2016 (days 18000) sample_nvd [Year 2015] [] Root_init"
  let ?u = "mirror sample_nvd @ download_uri (Year 2016)"
  let ?r = "\<lparr> status_code = 500, content = [], etag_header = None \<rparr>"
  have 1: "NVD_relevant_archives sample_nvd (days 18000) (Root_init :: string list Root)
     = [Year 2015] @ Year 2016 # [Year 2017, Year 2018, Year 2019, Year 2020, Modified]"
    by code_simp
  have n: "snd (snd ?l) = None" by code_simp
  have f: "fst ?l = [''https://mirror/nvdcve-1.1-2015.json.gz'']" by code_simp
  have 2: "?l = ([''https://mirror/nvdcve-1.1-2015.json.gz''], fst (snd ?l), None)"
    using n f by (metis prod.collapse)
  have u: "?u = ''https://mirror/nvdcve-1.1-2016.json.gz''" by code_simp
  have 3: "http_get world_fail_2016 ?u (headers_for (meta (fst (snd ?l))) ?u) = Inr ?r"
    unfolding u by (simp add: world_fail_2016_def)
  have 4: "Inr ?r = Inl HTTPError \<or> (\<exists>r. (Inr ?r :: error + response) = Inr r \<and> 400 \<le> status_code r
             \<and> status_code r < 600 \<and> HTTPError = HTTPError)"
    by simp
  have 5: "map_of (advisory (fst (snd ?l))) ''CVE-2021-77'' = Some cve_77" by code_simp
  from update_fetch_failure [OF 1 2 3 4] 1 n 5 show ?thesis
    unfolding u by simp
qed

lemma last_update_should_pack: "last_update (snd (should_pack m)) = last_update m"
  by (simp add: should_pack_def Let_def)

lemma NVD_reindex_idem: "NVD_reindex (NVD_reindex root) = NVD_reindex root"
  by (simp add: NVD_reindex_def)

lemma NVD_reindex_meta: "NVD_reindex (root \<lparr> meta := m \<rparr>) = (NVD_reindex root) \<lparr> meta := m \<rparr>"
  by (simp add: NVD_reindex_def)

lemma meta_NVD_reindex: "meta (NVD_reindex root) = meta root"
  by (simp add: NVD_reindex_def)

lemma meta_NVD_add: "meta (NVD_add items root) = meta root"
  by (simp add: NVD_add_def)

lemma Archive_download_last_update:
  assumes "Archive_download w now mirror_url metadata a = Inr (advisories, metadata')"
  shows "last_update metadata' = now \<or> last_update metadata' = last_update metadata"
  using assms
  by (auto simp: Archive_download_def Let_def split: sum.splits if_splits)

lemma Archive_download_200:
  assumes "Archive_download w now mirror_url metadata a = Inr (advisories, metadata')"
    and "http_get w (mirror_url @ download_uri a) (headers_for metadata (mirror_url @ download_uri a))
           = Inr r"
    and "status_code r = 200"
  shows "last_update metadata' = now"
  using assms by (auto simp: Archive_download_def Let_def split: sum.splits)

lemma update_loop_keeps_now:
  "update_loop w now self segs fetched root = (fetched', root', None) \<Longrightarrow>
   last_update (meta root) = now \<Longrightarrow> last_update (meta root') = now"
proof (induction segs arbitrary: fetched root)
  case Nil
  then show ?case by simp
next
  case (Cons a segs)
  show ?case
  proof (cases "Archive_download w now (mirror self) (meta root) a")
    case (Inl e)
    with Cons.prems show ?thesis by simp
  next
    case (Inr res)
    obtain advisories metadata where res: "res = (advisories, metadata)" by (cases res)
    from Archive_download_last_update[OF Inr[unfolded res]] Cons.prems(2)
    have "last_update (meta (NVD_add advisories (root \<lparr> meta := metadata \<rparr>))) = now"
      by (auto simp: meta_NVD_add)
    moreover from Cons.prems(1) Inr res
    have "update_loop w now self segs (fetched @ [mirror self @ download_uri a])
            (NVD_add advisories (root \<lparr> meta := metadata \<rparr>)) = (fetched', root', None)"
      by simp
    ultimately show ?thesis by (rule Cons.IH[rotated])
  qed
qed

lemma update_loop_after_200:
  assumes "update_loop w now self (a # post) fetched root = (fetched', root', None)"
    and "http_get w (mirror self @ download_uri a)
           (headers_for (meta root) (mirror self @ download_uri a)) = Inr r"
    and "status_code r = 200"
  shows "last_update (meta root') = now"
proof (cases "Archive_download w now (mirror self) (meta root) a")
  case (Inl e)
  with assms(1) show ?thesis by simp
next
  case (Inr res)
  obtain advisories metadata where res: "res = (advisories, metadata)" by (cases res)
  from Archive_download_200[OF Inr[unfolded res] assms(2,3)]
  have "last_update (meta (NVD_add advisories (root \<lparr> meta := metadata \<rparr>))) = now"
    by (simp add: meta_NVD_add)
  moreover from assms(1) Inr res
  have "update_loop w now self post (fetched @ [mirror self @ download_uri a])
          (NVD_add advisories (root \<lparr> meta := metadata \<rparr>)) = (fetched', root', None)"
    by simp
  ultimately show ?thesis by (rule update_loop_keeps_now[rotated])
qed

lemma NVD_update_clean:
  assumes "NVD_update w now self root = (fetched, root1, None)"
  obtains root' where
    "update_loop w now self (NVD_relevant_archives self now root) [] root = (fetched, root', None)"
    and "root1 = NVD_reindex root'"
proof -
  obtain f r x where l: "update_loop w now self (NVD_relevant_archives self now root) [] root = (f, r, x)"
    by (cases "update_loop w now self (NVD_relevant_archives self now root) [] root") auto
  with assms have "x = None" "f = fetched" "root1 = NVD_reindex r"
    by (auto simp: NVD_update_def split: option.splits)
  with l that show ?thesis by blast
qed

lemma NVD_update_fresh_store:
  assumes "last_update (meta root) = now1" and "now2 < now1 + hours 1"
    and "NVD_reindex root = root"
  shows "NVD_update w now2 self root = ([], root, None)"
proof -
  from assms(1,2) have "NVD_relevant_archives self now2 root = []"
    by (simp add: NVD_relevant_archives_def)
  with assms(3) show ?thesis by (simp add: NVD_update_def)
qed

text \<open>
  C7, as stated, fails: \<open>last_update\<close> is set only when a segment comes with status
  200. With a store last updated two hours ago and a server that answers \<open>304\<close>, the
  first run requests the segment \<open>modified\<close> and leaves \<open>last_update\<close> as it was, and
  a second run at the same time requests the segment again.
\<close>

theorem update_twice_counterexample:
  "NVD_update world_304 (hours 12) sample_nvd root_stale
     = ([''https://mirror/nvdcve-1.1-modified.json.gz''], root_stale, None)
   \<and> NVD_exit True root_stale root_stale
     = (False, root_stale \<lparr> meta := Meta_init \<lparr> pack_counter := 1, last_update := hours 10 \<rparr> \<rparr>)
   \<and> fst (NVD_update world_304 (hours 12) sample_nvd
            (root_stale \<lparr> meta := Meta_init \<lparr> pack_counter := 1, last_update := hours 10 \<rparr> \<rparr>))
     = [''https://mirror/nvdcve-1.1-modified.json.gz'']"
  by code_simp

text \<open>
  C7, amended. If a first run ends without an exception and the request it made for
  some segment that was due came back with fresh content (status 200), then a second
  run that starts less than one hour after the first, on the store the first session
  committed, performs no fetch, and the second session leaves the stored records and
  the product index as they are.
\<close>

theorem update_twice:
  assumes "NVD_update w1 now1 self1 root0 = (fetched1, root1, None)"
    and "NVD_relevant_archives self1 now1 root0 = pre @ a # post"
    and "update_loop w1 now1 self1 pre [] root0 = (fetched, root_a, None)"
    and "http_get w1 (mirror self1 @ download_uri a)
           (headers_for (meta root_a) (mirror self1 @ download_uri a)) = Inr r"
    and "status_code r = 200"
    and "now2 < now1 + hours 1"
  shows "fst (NVD_update w2 now2 self2 (snd (NVD_exit True root0 root1))) = []
     \<and> snd (snd (NVD_update w2 now2 self2 (snd (NVD_exit True root0 root1)))) = None
     \<and> advisory (snd (NVD_exit True (snd (NVD_exit True root0 root1))
                         (fst (snd (NVD_update w2 now2 self2 (snd (NVD_exit True root0 root1)))))))
         = advisory (snd (NVD_exit True root0 root1))
     \<and> by_product (snd (NVD_exit True (snd (NVD_exit True root0 root1))
                           (fst (snd (NVD_update w2 now2 self2 (snd (NVD_exit True root0 root1)))))))
         = by_product (snd (NVD_exit True root0 root1))"
proof -
  from assms(1) obtain root' where
    l: "update_loop w1 now1 self1 (NVD_relevant_archives self1 now1 root0) [] root0
          = (fetched1, root', None)"
    and r1: "root1 = NVD_reindex root'"
    by (rule NVD_update_clean)
  have "update_loop w1 now1 self1 (pre @ a # post) [] root0
        = update_loop w1 now1 self1 (a # post) fetched root_a"
    using assms(3) by (rule update_loop_append)
  with l assms(2) have "update_loop w1 now1 self1 (a # post) fetched root_a = (fetched1, root', None)"
    by simp
  then have "last_update (meta root') = now1"
    using assms(4,5) by (rule update_loop_after_200)
  then have lu: "last_update (meta root1) = now1"
    by (simp add: r1 meta_NVD_reindex)
  let ?c = "snd (NVD_exit True root0 root1)"
  have c: "?c = root1 \<lparr> meta := snd (should_pack (meta root1)) \<rparr>"
    by (simp add: NVD_exit_def split: prod.splits)
  have 1: "last_update (meta ?c) = now1"
    unfolding c using lu by (simp add: last_update_should_pack)
  have "NVD_reindex (root1 \<lparr> meta := m \<rparr>) = root1 \<lparr> meta := m \<rparr>" for m
    by (simp add: r1 NVD_reindex_meta NVD_reindex_idem)
  then have 2: "NVD_reindex ?c = ?c"
    by (simp only: c)
  have u: "NVD_update w2 now2 self2 ?c = ([], ?c, None)"
    using 1 assms(6) 2 by (rule NVD_update_fresh_store)
  have e: "advisory (snd (NVD_exit True ?c ?c)) = advisory ?c
           \<and> by_product (snd (NVD_exit True ?c ?c)) = by_product ?c"
    by (simp add: NVD_exit_def split: prod.splits)
  show ?thesis
    unfolding u using e by simp
qed

theorem update_twice_witness:
  "NVD_relevant_archives sample_nvd (hours 12) root_stale = [] @ Modified # []
   \<and> status_code \<lparr> status_code = 200, content = ''feed'', etag_header = Some ''v1'' \<rparr> = 200
   \<and> hours 12 + 5 < hours 12 + hours 1
   \<and> snd (snd (NVD_update world_etag (hours 12) sample_nvd root_stale)) = None
   \<and> fst (NVD_update world_etag (hours 12) sample_nvd root_stale)
       = [''https://mirror/nvdcve-1.1-modified.json.gz'']
   \<and> NVD_by_id (snd (NVD_exit True root_stale
                       (fst (snd (NVD_update world_etag (hours 12) sample_nvd root_stale)))))
        ''CVE-2021-77'' = Inr cve_77
   \<and> fst (NVD_update world_etag (hours 12 + 5) sample_nvd
            (snd (NVD_exit True root_stale
                   (fst (snd (NVD_update world_etag (hours 12) sample_nvd root_stale)))))) = []
   \<and> advisory (snd (NVD_exit True
          (snd (NVD_exit True root_stale
                 (fst (snd (NVD_update world_etag (hours 12) sample_nvd root_stale)))))
          (fst (snd (NVD_update world_etag (hours 12 + 5) sample_nvd
                      (snd (NVD_exit True root_stale
                             (fst (snd (NVD_update world_etag (hours 12) sample_nvd
                                          root_stale))))))))))
       = advisory (snd (NVD_exit True root_stale
                         (fst (snd (NVD_update world_etag (hours 12) sample_nvd root_stale)))))"
proof -
  let ?u = "NVD_update world_etag (hours 12) sample_nvd root_stale"
  let ?url = "mirror sample_nvd @ download_uri Modified"
  let ?r = "\<lparr> status_code = 200, content = ''feed'', etag_header = Some ''v1'' \<rparr>"
  have n: "snd (snd ?u) = None" by code_simp
  have f: "fst ?u = [''https://mirror/nvdcve-1.1-modified.json.gz'']" by code_simp
  have 1: "?u = ([''https://mirror/nvdcve-1.1-modified.json.gz''], fst (snd ?u), None)"
    using n f by (metis prod.collapse)
  have 2: "NVD_relevant_archives sample_nvd (hours 12) root_stale = [] @ Modified # []"
    by code_simp
  have 3: "update_loop world_etag (hours 12) sample_nvd [] [] root_stale = ([], root_stale, None)"
    by simp
  have 4: "http_get world_etag ?url (headers_for (meta root_stale) ?url) = Inr ?r"
    by code_simp
  have 5: "status_code ?r = 200" by simp
  have 6: "hours 12 + 5 < hours 12 + hours 1" by (simp add: hours_def)
  have 7: "NVD_by_id (snd (NVD_exit True root_stale (fst (snd ?u)))) ''CVE-2021-77'' = Inr cve_77"
    by code_simp
  from update_twice [OF 1 2 3 4 5 6, of world_etag sample_nvd] n f 2 5 6 7 show ?thesis by blast
qed

end
